theory Spec2Isabelle
  imports Main "HOL-Library.Word"
begin

unbundle bit_operations_syntax

section \<open>Values: hashes, byte strings, node identifiers\<close>

text \<open>
  The synchronisation code of the authenticated map (getMissingNodes, getNodeFat,
  addRootNode, addKnownNode) is embedded below. The header that declares the node
  classes, the by-ID indexes and the helpers these functions call is not among the
  sources; those parts are written from the specification, and each such definition
  says so.
\<close>

type_synonym uint256 = "256 word"
type_synonym uint32 = "32 word"
type_synonym blob = "8 word list"

text \<open>The digest \<open>getSHA512Half\<close> is a parameter of every function that hashes.\<close>

type_synonym hasher = "blob \<Rightarrow> uint256"

record SHAMapNode =
  mDepth :: int
  mNodeID :: uint256

definition SHAMapNode_default :: SHAMapNode where
  \<comment> \<open>Modelled from the spec: \<open>SHAMapNode()\<close>, the root's ID: depth 0, empty prefix.\<close>
  "SHAMapNode_default = \<lparr>mDepth = 0, mNodeID = 0\<rparr>"

definition isRoot :: "SHAMapNode \<Rightarrow> bool" where
  \<comment> \<open>Modelled from the spec: isRoot iff depth = 0.\<close>
  "isRoot n = (mDepth n = 0)"

definition isLeaf :: "SHAMapNode \<Rightarrow> bool" where
  \<comment> \<open>Modelled from the spec: isLeaf iff depth = 64.\<close>
  "isLeaf n = (mDepth n = 64)"

definition nibblePos :: "int \<Rightarrow> nat" where
  \<comment> \<open>Bit offset of nibble \<open>d\<close> of a 256-bit key, big-endian, high nibble first.\<close>
  "nibblePos d = 4 * (63 - nat d)"

definition selectBranch :: "SHAMapNode \<Rightarrow> uint256 \<Rightarrow> int" where
  \<comment> \<open>Modelled from the spec: the nibble of the key at position depth. It is only
      valid at an inner node; the caller in the source tests the result for \<open>< 0\<close>,
      so a depth that has no nibble gives \<open>-1\<close>.\<close>
  "selectBranch n k =
     (if 0 \<le> mDepth n \<and> mDepth n < 64
      then uint (drop_bit (nibblePos (mDepth n)) k AND 15)
      else - 1)"

definition getChildNodeID :: "SHAMapNode \<Rightarrow> nat \<Rightarrow> SHAMapNode" where
  \<comment> \<open>Modelled from the spec: extend the depth by one, set nibble depth to the branch.\<close>
  "getChildNodeID n m =
     \<lparr>mDepth = mDepth n + 1,
      mNodeID = (mNodeID n AND NOT (push_bit (nibblePos (mDepth n)) 15))
                  OR push_bit (nibblePos (mDepth n)) (word_of_nat m)\<rparr>"

subsection \<open>Wire form\<close>

definition be_val :: "blob \<Rightarrow> nat" where
  "be_val bs = foldl (\<lambda>a b. a * 256 + unat b) 0 bs"

fun be_bytes :: "nat \<Rightarrow> nat \<Rightarrow> blob" where
  "be_bytes 0 v = []"
| "be_bytes (Suc n) v = be_bytes n (v div 256) @ [word_of_nat (v mod 256)]"

definition get256 :: "blob \<Rightarrow> nat \<Rightarrow> uint256" where
  \<comment> \<open>\<open>Serializer::get256\<close>: the 32 bytes at an offset, big-endian.\<close>
  "get256 raw pos = word_of_nat (be_val (take 32 (drop pos raw)))"

definition add256 :: "uint256 \<Rightarrow> blob" where
  \<comment> \<open>\<open>Serializer::add256\<close>: 32 bytes, big-endian.\<close>
  "add256 w = be_bytes 32 (unat w)"

section \<open>Nodes\<close>

record SHAMapInnerNode =
  inID :: SHAMapNode        \<comment> \<open>the base class \<open>SHAMapNode\<close>\<close>
  mHashes :: "uint256 list"
  mHash :: uint256
  mFullBelow :: bool
  mSeq :: uint32

record SHAMapLeafNode =
  lfID :: SHAMapNode        \<comment> \<open>the base class \<open>SHAMapNode\<close>\<close>
  lfKey :: uint256
  lfPayload :: blob
  lfHash :: uint256
  lfSeq :: uint32

definition getDepth :: "SHAMapInnerNode \<Rightarrow> int" where
  "getDepth n = mDepth (inID n)"

definition getNodeID :: "SHAMapInnerNode \<Rightarrow> uint256" where
  "getNodeID n = mNodeID (inID n)"

definition getChildHash :: "SHAMapInnerNode \<Rightarrow> nat \<Rightarrow> uint256" where
  \<comment> \<open>Modelled from the spec: the child hash of a slot. The declaration of the slot
      array is missing and the loops of the source read slots 0..31, so a slot the
      node does not store reads as the zero hash.\<close>
  "getChildHash n i = (if i < length (mHashes n) then mHashes n ! i else 0)"

definition isEmptyBranch :: "SHAMapInnerNode \<Rightarrow> nat \<Rightarrow> bool" where
  \<comment> \<open>Modelled from the spec: slots with zero hash are empty.\<close>
  "isEmptyBranch n i = (getChildHash n i = 0)"

definition isChildLeaf :: "SHAMapInnerNode \<Rightarrow> bool" where
  \<comment> \<open>Modelled from the spec: the children are leaves iff the parent's depth is 63.\<close>
  "isChildLeaf n = (getDepth n = 63)"

definition isFullBelow :: "SHAMapInnerNode \<Rightarrow> bool" where
  "isFullBelow n = mFullBelow n"

definition getNodeHash :: "SHAMapInnerNode \<Rightarrow> uint256" where
  "getNodeHash n = mHash n"

definition addRaw_inner :: "SHAMapInnerNode \<Rightarrow> blob" where
  \<comment> \<open>Modelled from the spec: 16 x 32 bytes of child hashes in branch order, the
      all-zero hash for an empty branch.\<close>
  "addRaw_inner n = concat (map (\<lambda>i. add256 (getChildHash n i)) [0..<16])"

definition addRaw_leaf :: "SHAMapLeafNode \<Rightarrow> blob" where
  \<comment> \<open>Modelled from the spec: the 32-byte key followed by the payload bytes.\<close>
  "addRaw_leaf l = add256 (lfKey l) @ lfPayload l"

datatype error =
    MalformedNode       \<comment> \<open>thrown by a node constructor on bytes that do not parse\<close>
  | AssertionFailed     \<comment> \<open>\<open>assert\<close> in a build that keeps assertions\<close>
  | NullPointer         \<comment> \<open>a null \<open>root\<close> dereferenced\<close>

definition new_SHAMapInnerNode ::
  "hasher \<Rightarrow> SHAMapNode \<Rightarrow> blob \<Rightarrow> uint32 \<Rightarrow> error + SHAMapInnerNode" where
  \<comment> \<open>Modelled from the spec: the constructor from the wire form. It fails with
      MalformedNode when the length is wrong; the node hash is the digest of the
      canonical serialization of the child hashes; the node takes the ID it is given.\<close>
  "new_SHAMapInnerNode H ident raw seq =
     (if length raw \<noteq> 512 then Inl MalformedNode
      else let hs = map (\<lambda>i. get256 raw (32 * i)) [0..<16]
           in Inr \<lparr>inID = ident, mHashes = hs, mHash = H (concat (map add256 hs)),
                   mFullBelow = False, mSeq = seq\<rparr>)"

definition new_SHAMapLeafNode ::
  "hasher \<Rightarrow> SHAMapNode \<Rightarrow> blob \<Rightarrow> uint32 \<Rightarrow> error + SHAMapLeafNode" where
  \<comment> \<open>Modelled from the spec: the constructor from the wire form. It fails with
      MalformedNode on fewer than 32 bytes; the node hash is the digest of key and
      payload; the ID is derived from the content: depth 64 and the item's key.\<close>
  "new_SHAMapLeafNode H ident raw seq =
     (if length raw < 32 then Inl MalformedNode
      else let k = get256 raw 0; pl = drop 32 raw
           in Inr \<lparr>lfID = \<lparr>mDepth = 64, mNodeID = k\<rparr>, lfKey = k, lfPayload = pl,
                   lfHash = H (add256 k @ pl), lfSeq = seq\<rparr>)"

section \<open>The map and its node store\<close>

text \<open>
  Inner nodes are shared objects: \<open>root\<close>, the by-ID index, the dirty set and the
  traversal stack hold pointers to the same node, and getMissingNodes writes the
  fullBelow flag through such a pointer. They live in an explicit store. Leaves are
  never written through a pointer by these functions; the indexes hold them by value.
\<close>

type_synonym ptr = nat

record SHAMap =
  heap :: "ptr \<Rightarrow> SHAMapInnerNode"
  nextPtr :: ptr
  root :: "ptr option"
  mInnerNodeByID :: "SHAMapNode \<rightharpoonup> ptr"
  mLeafByID :: "SHAMapNode \<rightharpoonup> SHAMapLeafNode"
  mDirtyInnerNodes :: "(SHAMapNode \<rightharpoonup> ptr) option"
  mDirtyLeafNodes :: "(SHAMapNode \<rightharpoonup> SHAMapLeafNode) option"
  mapSeq :: uint32

definition setFullBelow :: "SHAMap \<Rightarrow> ptr \<Rightarrow> SHAMap" where
  "setFullBelow s p = s\<lparr>heap := (heap s)(p := (heap s p)\<lparr>mFullBelow := True\<rparr>)\<rparr>"

definition getInner :: "SHAMap \<Rightarrow> SHAMapNode \<Rightarrow> uint256 \<Rightarrow> ptr option" where
  \<comment> \<open>Modelled from the spec: the inner-by-ID index yields an optional handle; a node
      whose hash is not the expected one is reported as absent.\<close>
  "getInner s ident h =
     (case mInnerNodeByID s ident of
        None \<Rightarrow> None
      | Some p \<Rightarrow> if getNodeHash (heap s p) = h then Some p else None)"

definition getLeaf :: "SHAMap \<Rightarrow> SHAMapNode \<Rightarrow> uint256 \<Rightarrow> SHAMapLeafNode option" where
  \<comment> \<open>Modelled from the spec: as getInner, on the leaf-by-ID index.\<close>
  "getLeaf s ident h =
     (case mLeafByID s ident of
        None \<Rightarrow> None
      | Some l \<Rightarrow> if lfHash l = h then Some l else None)"

definition getInnerNode :: "SHAMap \<Rightarrow> SHAMapNode \<Rightarrow> ptr option" where
  \<comment> \<open>Modelled from the spec: the resident inner node of an ID, if any.\<close>
  "getInnerNode s ident = mInnerNodeByID s ident"

definition getLeafNode :: "SHAMap \<Rightarrow> SHAMapNode \<Rightarrow> SHAMapLeafNode option" where
  \<comment> \<open>Modelled from the spec: the resident leaf of an ID, if any.\<close>
  "getLeafNode s ident = mLeafByID s ident"

definition checkCacheNode :: "SHAMap \<Rightarrow> SHAMapNode \<Rightarrow> bool" where
  \<comment> \<open>Modelled from the spec: the fast already-have test on the inner-by-ID index.\<close>
  "checkCacheNode s ident = (mInnerNodeByID s ident \<noteq> None)"

definition checkCacheLeaf :: "SHAMap \<Rightarrow> SHAMapNode \<Rightarrow> bool" where
  \<comment> \<open>Modelled from the spec: the fast already-have test on the leaf-by-ID index.\<close>
  "checkCacheLeaf s ident = (mLeafByID s ident \<noteq> None)"

fun walkFrom :: "nat \<Rightarrow> SHAMap \<Rightarrow> SHAMapNode \<Rightarrow> ptr \<Rightarrow> ptr" where
  "walkFrom 0 s ident p = p"
| "walkFrom (Suc n) s ident p =
     (let node = heap s p in
      if getDepth node = mDepth ident then p
      else let branch = selectBranch (inID node) (mNodeID ident) in
        if branch < 0 then p
        else if isEmptyBranch node (nat branch) then p
        else if isChildLeaf node then p
        else case getInner s (getChildNodeID (inID node) (nat branch))
                    (getChildHash node (nat branch)) of
               None \<Rightarrow> p
             | Some q \<Rightarrow> walkFrom n s ident q)"

definition walkTo :: "SHAMap \<Rightarrow> SHAMapNode \<Rightarrow> ptr option" where
  \<comment> \<open>Modelled from the spec: starting at the root, descend by selectBranch until the
      target depth is reached or the next branch is empty or unresident; the result is
      the last resident inner node, and it is null only when there is no root. A path
      has at most 64 inner nodes, which bounds the descent.\<close>
  "walkTo s ident = (case root s of None \<Rightarrow> None | Some r \<Rightarrow> Some (walkFrom 64 s ident r))"

section \<open>getMissingNodes\<close>

text \<open>
  The state of the \<open>for\<close> loop over the branches of one node: the budget \<open>max\<close> (here \<open>mx\<close>), the two
  output vectors, the stack (top first) and the flag \<open>all_leaves\<close>. The test
  \<open>max-->0\<close> compares the old value and decrements whether or not it held.
\<close>

type_synonym gMN_state = "int \<times> SHAMapNode list \<times> uint256 list \<times> ptr list \<times> bool"

definition gMN_branch :: "SHAMap \<Rightarrow> SHAMapInnerNode \<Rightarrow> nat \<Rightarrow> gMN_state \<Rightarrow> gMN_state" where
  "gMN_branch s node i st =
     (case st of (mx, nodeIDs, hashes, stack, all_leaves) \<Rightarrow>
        if \<not> isEmptyBranch node i then
          if isChildLeaf node then
            (case getLeaf s (getChildNodeID (inID node) i) (getChildHash node i) of
               None \<Rightarrow>
                 if mx > 0
                 then (mx - 1, nodeIDs @ [getChildNodeID (inID node) i],
                       hashes @ [getChildHash node i], stack, False)
                 else (mx - 1, nodeIDs, hashes, stack, False)
             | Some leaf \<Rightarrow> st)
          else
            (case getInner s (getChildNodeID (inID node) i) (getChildHash node i) of
               None \<Rightarrow>
                 if mx > 0
                 then (mx - 1, nodeIDs @ [getChildNodeID (inID node) i],
                       hashes @ [getChildHash node i], stack, False)
                 else (mx - 1, nodeIDs, hashes, stack, False)
             | Some desc \<Rightarrow>
                 if \<not> isFullBelow (heap s desc)
                 then (mx, nodeIDs, hashes, desc # stack, all_leaves)
                 else st)
        else st)"

definition gMN_for :: "SHAMap \<Rightarrow> SHAMapInnerNode \<Rightarrow> gMN_state \<Rightarrow> gMN_state" where
  "gMN_for s node st = fold (gMN_branch s node) [0..<32] st"

partial_function (option) gMN_while ::
  "SHAMap \<Rightarrow> int \<Rightarrow> SHAMapNode list \<Rightarrow> uint256 list \<Rightarrow> ptr list
     \<Rightarrow> (int \<times> SHAMapNode list \<times> uint256 list \<times> SHAMap) option" where
  "gMN_while s mx nodeIDs hashes stack =
     (if mx > 0 \<and> stack \<noteq> [] then
        (case stack of
           [] \<Rightarrow> Some (mx, nodeIDs, hashes, s)
         | node # stack1 \<Rightarrow>
            (case gMN_for s (heap s node) (mx, nodeIDs, hashes, stack1, True) of
               (mx', nodeIDs', hashes', stack', all_leaves) \<Rightarrow>
                 gMN_while (if all_leaves then setFullBelow s node else s)
                   mx' nodeIDs' hashes' stack'))
      else Some (mx, nodeIDs, hashes, s))"

definition getMissingNodes ::
  "SHAMap \<Rightarrow> SHAMapNode list \<Rightarrow> uint256 list \<Rightarrow> int
     \<Rightarrow> (error + SHAMapNode list \<times> uint256 list \<times> SHAMap) option" where
  "getMissingNodes s nodeIDs hashes mx =
     (case root s of
        None \<Rightarrow> Some (Inl NullPointer)
      | Some r \<Rightarrow>
          if isFullBelow (heap s r) then Some (Inr (nodeIDs, hashes, s))
          else (case gMN_while s mx nodeIDs hashes [r] of
                  None \<Rightarrow> None
                | Some (mx', nodeIDs', hashes', s') \<Rightarrow> Some (Inr (nodeIDs', hashes', s'))))"

section \<open>getNodeFat\<close>

type_synonym gNF_state = "bool \<times> SHAMapNode list \<times> blob list"

definition gNF_branch :: "SHAMap \<Rightarrow> SHAMapInnerNode \<Rightarrow> nat \<Rightarrow> gNF_state \<Rightarrow> gNF_state" where
  "gNF_branch s node i st =
     (case st of (ret, nodeIDs, rawNodes) \<Rightarrow>
        if \<not> isEmptyBranch node i then
          if isChildLeaf node then
            (case getLeaf s (getChildNodeID (inID node) i) (getChildHash node i) of
               None \<Rightarrow> (False, nodeIDs, rawNodes)
             | Some leaf \<Rightarrow> (ret, nodeIDs @ [lfID leaf], rawNodes @ [addRaw_leaf leaf]))
          else
            (case getInner s (getChildNodeID (inID node) i) (getChildHash node i) of
               None \<Rightarrow> (False, nodeIDs, rawNodes)
             | Some ino \<Rightarrow>
                 (ret, nodeIDs @ [inID (heap s ino)], rawNodes @ [addRaw_inner (heap s ino)]))
        else st)"

definition getNodeFat ::
  "SHAMap \<Rightarrow> SHAMapNode \<Rightarrow> SHAMapNode list \<Rightarrow> blob list \<Rightarrow> bool \<times> SHAMapNode list \<times> blob list" where
  "getNodeFat s wanted nodeIDs rawNodes =
     (if isLeaf wanted then
        (case getLeafNode s wanted of
           None \<Rightarrow> (False, nodeIDs, rawNodes)
         | Some leaf \<Rightarrow> (True, nodeIDs @ [lfID leaf], rawNodes @ [addRaw_leaf leaf]))
      else
        (case getInnerNode s wanted of
           None \<Rightarrow> (False, nodeIDs, rawNodes)
         | Some node \<Rightarrow> fold (gNF_branch s (heap s node)) [0..<32] (True, nodeIDs, rawNodes)))"

section \<open>addRootNode and addKnownNode\<close>

text \<open>
  The flag \<open>ndebug\<close> says whether \<open>assert\<close> is compiled out. A constructor that throws
  leaves the call by the exception, before anything is written. \<open>new\<close> never yields
  null, so the tests \<open>if(!node) return false\<close> have no branch here. A node that is
  built and then rejected is released with its last pointer: the store is the old one.
\<close>

definition installInner :: "SHAMap \<Rightarrow> SHAMapNode \<Rightarrow> SHAMapInnerNode \<Rightarrow> ptr \<Rightarrow> SHAMap" where
  \<comment> \<open>\<open>mInnerNodeByID[id]=node; if(mDirtyInnerNodes) (*mDirtyInnerNodes)[id]=node;\<close>
      for the object allocated at \<open>p\<close>.\<close>
  "installInner s ident node p =
     s\<lparr>heap := (heap s)(p := node), nextPtr := Suc p,
       mInnerNodeByID := (mInnerNodeByID s)(ident \<mapsto> p),
       mDirtyInnerNodes := map_option (\<lambda>d. d(ident \<mapsto> p)) (mDirtyInnerNodes s)\<rparr>"

definition installLeaf :: "SHAMap \<Rightarrow> SHAMapNode \<Rightarrow> SHAMapLeafNode \<Rightarrow> SHAMap" where
  \<comment> \<open>\<open>mLeafByID[node]=leaf; if(mDirtyLeafNodes) (*mDirtyLeafNodes)[node]=leaf;\<close>\<close>
  "installLeaf s ident leaf =
     s\<lparr>mLeafByID := (mLeafByID s)(ident \<mapsto> leaf),
       mDirtyLeafNodes := map_option (\<lambda>d. d(ident \<mapsto> leaf)) (mDirtyLeafNodes s)\<rparr>"

definition addRootNode :: "hasher \<Rightarrow> SHAMap \<Rightarrow> blob \<Rightarrow> error + bool \<times> SHAMap" where
  "addRootNode H s rootNode =
     (case root s of
        None \<Rightarrow> Inl NullPointer
      | Some r \<Rightarrow>
          if getNodeHash (heap s r) \<noteq> 0 then Inr (True, s)
          else (case new_SHAMapInnerNode H SHAMapNode_default rootNode 0 of
                  Inl e \<Rightarrow> Inl e
                | Inr node \<Rightarrow>
                    Inr (True, (installInner s (inID node) node (nextPtr s))
                                 \<lparr>root := Some (nextPtr s)\<rparr>)))"

definition addRootNode_hash ::
  "bool \<Rightarrow> hasher \<Rightarrow> SHAMap \<Rightarrow> uint256 \<Rightarrow> blob \<Rightarrow> error + bool \<times> SHAMap" where
  "addRootNode_hash ndebug H s hash rootNode =
     (case root s of
        None \<Rightarrow> Inl NullPointer
      | Some r \<Rightarrow>
          if getNodeHash (heap s r) \<noteq> 0 then
            (if \<not> ndebug \<and> getNodeHash (heap s r) \<noteq> hash then Inl AssertionFailed
             else Inr (True, s))
          else (case new_SHAMapInnerNode H SHAMapNode_default rootNode 0 of
                  Inl e \<Rightarrow> Inl e
                | Inr node \<Rightarrow>
                    if getNodeHash node \<noteq> hash then Inr (False, s)
                    else Inr (True, (installInner s (inID node) node (nextPtr s))
                                      \<lparr>root := Some (nextPtr s)\<rparr>)))"

definition addKnownNode ::
  "bool \<Rightarrow> hasher \<Rightarrow> SHAMap \<Rightarrow> SHAMapNode \<Rightarrow> blob \<Rightarrow> error + bool \<times> SHAMap" where
  "addKnownNode ndebug H s node rawNode =
     (if \<not> ndebug \<and> isRoot node then Inl AssertionFailed
      else if (if isLeaf node then checkCacheLeaf s node else checkCacheNode s node)
      then Inr (True, s)
      else (case walkTo s node of
         None \<Rightarrow> if ndebug then Inr (True, s) else Inl AssertionFailed
       | Some iNode \<Rightarrow>
          if getDepth (heap s iNode) = mDepth node then Inr (True, s)
          else if getDepth (heap s iNode) \<noteq> mDepth node - 1 then Inr (False, s)
          else let branch = selectBranch (inID (heap s iNode)) (mNodeID node) in
            if branch < 0 then (if ndebug then Inr (False, s) else Inl AssertionFailed)
            else let hash = getChildHash (heap s iNode) (nat branch) in
              if hash = 0 then Inr (False, s)
              else if isLeaf node then
                (case new_SHAMapLeafNode H node rawNode (mapSeq s) of
                   Inl e \<Rightarrow> Inl e
                 | Inr leaf \<Rightarrow>
                     if lfHash leaf \<noteq> hash \<or> node \<noteq> lfID leaf then Inr (False, s)
                     else Inr (True, installLeaf s node leaf))
              else
                (case new_SHAMapInnerNode H node rawNode (mapSeq s) of
                   Inl e \<Rightarrow> Inl e
                 | Inr newNode \<Rightarrow>
                     if getNodeHash newNode \<noteq> hash \<or> mNodeID node \<noteq> getNodeID newNode
                     then Inr (False, s)
                     else Inr (True, installInner s node newNode (nextPtr s)))))"

section \<open>Notions used to state the properties\<close>

text \<open>
  What the branch loop of getMissingNodes finds at branch \<open>i\<close> of a node: the child is
  referenced and not resident (\<open>childMissing\<close>), or it is a resident inner node that is not
  full below and is therefore pushed (\<open>childToPush\<close>).
\<close>

definition childMissing :: "SHAMap \<Rightarrow> SHAMapInnerNode \<Rightarrow> nat \<Rightarrow> bool" where
  "childMissing s node i =
     (\<not> isEmptyBranch node i \<and>
      (if isChildLeaf node
       then getLeaf s (getChildNodeID (inID node) i) (getChildHash node i) = None
       else getInner s (getChildNodeID (inID node) i) (getChildHash node i) = None))"

definition childToPush :: "SHAMap \<Rightarrow> SHAMapInnerNode \<Rightarrow> nat \<Rightarrow> ptr option" where
  "childToPush s node i =
     (if isEmptyBranch node i \<or> isChildLeaf node then None
      else case getInner s (getChildNodeID (inID node) i) (getChildHash node i) of
             None \<Rightarrow> None
           | Some desc \<Rightarrow> if isFullBelow (heap s desc) then None else Some desc)"

text \<open>
  The scan of one node as the specification words it, for a node of \<open>n\<close> branches: the
  branches \<open>0..n-1\<close> are considered in index order; every missing child takes one unit from the
  budget and is emitted while the budget is positive; every resident inner child that is not full
  below is pushed; the flag stays true iff no child is missing.
\<close>

definition scanBranches :: "nat \<Rightarrow> SHAMap \<Rightarrow> SHAMapInnerNode \<Rightarrow> gMN_state \<Rightarrow> gMN_state" where
  "scanBranches n s node st =
     (case st of (mx, ids, hs, stack, al) \<Rightarrow>
        (mx - int (length (filter (childMissing s node) [0..<n])),
         ids @ take (nat mx) (map (getChildNodeID (inID node)) (filter (childMissing s node) [0..<n])),
         hs @ take (nat mx) (map (getChildHash node) (filter (childMissing s node) [0..<n])),
         rev (List.map_filter (childToPush s node) [0..<n]) @ stack,
         al \<and> filter (childMissing s node) [0..<n] = []))"

text \<open>
  The frame of getMissingNodes: two maps differ at most in fullBelow flags that went from
  false to true, on nodes the map can reach by pointer.
\<close>

definition visitable :: "SHAMap \<Rightarrow> ptr set" where
  "visitable s = {p. root s = Some p} \<union> ran (mInnerNodeByID s)"

definition flagsOnly :: "SHAMap \<Rightarrow> SHAMap \<Rightarrow> bool" where
  "flagsOnly s s' =
     (root s' = root s \<and> nextPtr s' = nextPtr s \<and> mInnerNodeByID s' = mInnerNodeByID s \<and>
      mLeafByID s' = mLeafByID s \<and> mDirtyInnerNodes s' = mDirtyInnerNodes s \<and>
      mDirtyLeafNodes s' = mDirtyLeafNodes s \<and> mapSeq s' = mapSeq s \<and>
      (\<forall>p. heap s' p = heap s p \<or>
           (p \<in> visitable s \<and> \<not> mFullBelow (heap s p) \<and>
            heap s' p = (heap s p)\<lparr>mFullBelow := True\<rparr>)))"

text \<open>
  A node has a missing descendant: some chain of non-empty branches through resident inner
  nodes ends at a branch whose child is not resident.
\<close>

inductive missingBelow :: "SHAMap \<Rightarrow> ptr \<Rightarrow> bool" for s where
  here: "i < 32 \<Longrightarrow> childMissing s (heap s p) i \<Longrightarrow> missingBelow s p"
| below: "i < 32 \<Longrightarrow> \<not> isEmptyBranch (heap s p) i \<Longrightarrow> \<not> isChildLeaf (heap s p) \<Longrightarrow>
          getInner s (getChildNodeID (inID (heap s p)) i) (getChildHash (heap s p) i) = Some q \<Longrightarrow>
          missingBelow s q \<Longrightarrow> missingBelow s p"

text \<open>
  What getNodeFat appends for branch \<open>i\<close> of an inner node: the ID and the wire form of the
  resident child, if there is one.
\<close>

definition childFat :: "SHAMap \<Rightarrow> SHAMapInnerNode \<Rightarrow> nat \<Rightarrow> (SHAMapNode \<times> blob) option" where
  "childFat s node i =
     (if isEmptyBranch node i then None
      else if isChildLeaf node
      then map_option (\<lambda>leaf. (lfID leaf, addRaw_leaf leaf))
             (getLeaf s (getChildNodeID (inID node) i) (getChildHash node i))
      else map_option (\<lambda>ino. (inID (heap s ino), addRaw_inner (heap s ino)))
             (getInner s (getChildNodeID (inID node) i) (getChildHash node i)))"

text \<open>
  The order in which the rounds of the traversal loop descend: the remaining budget, then the
  number of reachable nodes that are not full below, then the number of stack entries that
  are full below.
\<close>

definition unfilled :: "SHAMap \<Rightarrow> ptr set" where
  "unfilled s = {q \<in> visitable s. \<not> mFullBelow (heap s q)}"

definition fullOnStack :: "SHAMap \<Rightarrow> ptr list \<Rightarrow> nat" where
  "fullOnStack s stack = length (filter (\<lambda>q. mFullBelow (heap s q)) stack)"

definition gMN_order :: "((SHAMap \<times> int \<times> ptr list) \<times> (SHAMap \<times> int \<times> ptr list)) set" where
  "gMN_order = inv_image (less_than <*lex*> less_than <*lex*> less_than)
              (\<lambda>(s, mx, stack). (nat mx, card (unfilled s), fullOnStack s stack))"

section \<open>Example maps\<close>

text \<open>
  Small concrete maps on which the theorems below are instantiated. The digest of the
  examples, \<open>lenHash\<close>, is the length of the hashed bytes: an inner node's wire form
  hashes to 512.
\<close>

definition lenHash :: hasher where
  "lenHash bs = word_of_nat (length bs)"

definition ex_node :: "SHAMapNode \<Rightarrow> uint256 list \<Rightarrow> uint256 \<Rightarrow> SHAMapInnerNode" where
  "ex_node ident hs h = \<lparr>inID = ident, mHashes = hs, mHash = h, mFullBelow = False, mSeq = 0\<rparr>"

definition ex_heap2 :: "ptr \<Rightarrow> SHAMapInnerNode" where
  \<comment> \<open>object 0 is the root, object 1 its child on branch 0\<close>
  "ex_heap2 p = (if p = 0 then ex_node SHAMapNode_default [512] 9
                 else ex_node \<lparr>mDepth = 1, mNodeID = 0\<rparr> [512, 0, 5] 512)"

definition ex_map2 :: SHAMap where
  \<comment> \<open>a root and one inner child; the child's own children are not resident\<close>
  "ex_map2 = \<lparr>heap = ex_heap2, nextPtr = 2, root = Some 0,
      mInnerNodeByID = [SHAMapNode_default \<mapsto> 0, \<lparr>mDepth = 1, mNodeID = 0\<rparr> \<mapsto> 1],
      mLeafByID = Map.empty, mDirtyInnerNodes = None, mDirtyLeafNodes = None, mapSeq = 0\<rparr>"

definition ex_fresh :: SHAMap where
  \<comment> \<open>an empty map: the root has no branch and the zero hash; dirty tracking is on\<close>
  "ex_fresh = \<lparr>heap = (\<lambda>p. ex_node SHAMapNode_default [] 0), nextPtr = 1, root = Some 0,
      mInnerNodeByID = [SHAMapNode_default \<mapsto> 0],
      mLeafByID = Map.empty, mDirtyInnerNodes = Some Map.empty, mDirtyLeafNodes = Some Map.empty,
      mapSeq = 0\<rparr>"

definition ex_raw0 :: blob where
  \<comment> \<open>the wire form of an inner node without children\<close>
  "ex_raw0 = replicate 512 0"

definition ex_inner0 :: "SHAMapNode \<Rightarrow> SHAMapInnerNode" where
  "ex_inner0 ident = \<lparr>inID = ident, mHashes = map (\<lambda>i. get256 ex_raw0 (32 * i)) [0..<16],
      mHash = 512, mFullBelow = False, mSeq = 0\<rparr>"

definition ex_map3 :: SHAMap where
  "ex_map3 = installInner ex_map2 \<lparr>mDepth = 2, mNodeID = 0\<rparr> (ex_inner0 \<lparr>mDepth = 2, mNodeID = 0\<rparr>) 2"

definition ex_rooted :: SHAMap where
  "ex_rooted = (installInner ex_fresh SHAMapNode_default (ex_inner0 SHAMapNode_default) 1)
                 \<lparr>root := Some 1\<rparr>"

definition ex_wide :: SHAMap where
  \<comment> \<open>a root that stores 17 slots; only slot 16 is non-empty, its child is not resident\<close>
  "ex_wide = \<lparr>heap = (\<lambda>p. ex_node SHAMapNode_default (replicate 16 0 @ [5]) 9), nextPtr = 1,
      root = Some 0, mInnerNodeByID = [SHAMapNode_default \<mapsto> 0],
      mLeafByID = Map.empty, mDirtyInnerNodes = None, mDirtyLeafNodes = None, mapSeq = 0\<rparr>"






section \<open>The loops of getMissingNodes and getNodeFat\<close>

declare upt_rec_numeral [simp del]

lemma gMN_branch_cases:
  "gMN_branch s node i (mx, ids, hs, st, al) =
     (if childMissing s node i
      then (mx - 1, ids @ (if mx > 0 then [getChildNodeID (inID node) i] else []),
            hs @ (if mx > 0 then [getChildHash node i] else []), st, False)
      else case childToPush s node i of
             None \<Rightarrow> (mx, ids, hs, st, al)
           | Some d \<Rightarrow> (mx, ids, hs, d # st, al))"
  by (auto simp: gMN_branch_def childMissing_def childToPush_def split: option.splits)

lemma take_nat_step: "0 < (mx::int) \<Longrightarrow> take (nat mx) (x # xs) = x # take (nat (mx - 1)) xs"
  by (cases "nat mx") (auto simp: nat_diff_distrib)

lemma gMN_fold:
  "fold (gMN_branch s node) js (mx, ids, hs, st, al) =
     (mx - int (length (filter (childMissing s node) js)),
      ids @ take (nat mx) (map (getChildNodeID (inID node)) (filter (childMissing s node) js)),
      hs @ take (nat mx) (map (getChildHash node) (filter (childMissing s node) js)),
      rev (List.map_filter (childToPush s node) js) @ st,
      al \<and> filter (childMissing s node) js = [])"
proof (induction js arbitrary: mx ids hs st al)
  case Nil
  show ?case by (simp add: List.map_filter_simps)
next
  case (Cons j js)
  show ?case
  proof (cases "childMissing s node j")
    case True
    then show ?thesis
      by (cases "0 < mx") (simp_all add: gMN_branch_cases Cons.IH take_nat_step
          List.map_filter_simps childToPush_def childMissing_def split: option.splits)
  next
    case False
    then show ?thesis
      by (cases "childToPush s node j")
         (simp_all add: gMN_branch_cases Cons.IH List.map_filter_simps)
  qed
qed

lemma gMN_for_scan: "gMN_for s node st = scanBranches 32 s node st"
  by (cases st) (simp add: gMN_for_def gMN_fold scanBranches_def)

lemma gMN_while_stop:
  "mx \<le> 0 \<or> stack = [] \<Longrightarrow> gMN_while s mx ids hs stack = Some (mx, ids, hs, s)"
  by (subst gMN_while.simps) auto

lemma gMN_while_step:
  "0 < mx \<Longrightarrow>
   gMN_while s mx ids hs (p # stack) =
     (case scanBranches 32 s (heap s p) (mx, ids, hs, stack, True) of
        (mx', ids', hs', stack', all_leaves) \<Rightarrow>
          gMN_while (if all_leaves then setFullBelow s p else s) mx' ids' hs' stack')"
  by (subst gMN_while.simps) (simp add: gMN_for_scan)

lemma getInner_setFullBelow [simp]: "getInner (setFullBelow s p) = getInner s"
  by (auto simp: fun_eq_iff getInner_def setFullBelow_def getNodeHash_def split: option.splits)

lemma getLeaf_setFullBelow [simp]: "getLeaf (setFullBelow s p) = getLeaf s"
  by (auto simp: fun_eq_iff getLeaf_def setFullBelow_def split: option.splits)

lemma childMissing_setFullBelow [simp]: "childMissing (setFullBelow s p) = childMissing s"
  by (simp add: fun_eq_iff childMissing_def)

lemma flagsOnly_refl: "flagsOnly s s"
  by (simp add: flagsOnly_def)

lemma visitable_flagsOnly: "flagsOnly s s' \<Longrightarrow> visitable s' = visitable s"
  by (simp add: flagsOnly_def visitable_def)

lemma flagsOnly_heap:
  "flagsOnly s s' \<Longrightarrow>
   heap s' p = heap s p \<or>
     (p \<in> visitable s \<and> \<not> mFullBelow (heap s p) \<and> heap s' p = (heap s p)\<lparr>mFullBelow := True\<rparr>)"
  unfolding flagsOnly_def by blast

lemma flagsOnly_trans:
  assumes "flagsOnly s s'" and "flagsOnly s' s''"
  shows "flagsOnly s s''"
proof -
  have v: "visitable s' = visitable s" using assms(1) by (rule visitable_flagsOnly)
  have h: "heap s'' p = heap s p \<or>
           (p \<in> visitable s \<and> \<not> mFullBelow (heap s p) \<and>
            heap s'' p = (heap s p)\<lparr>mFullBelow := True\<rparr>)" for p
  proof (cases "heap s' p = heap s p")
    case True
    with flagsOnly_heap [OF assms(2), of p] v show ?thesis by simp
  next
    case False
    with flagsOnly_heap [OF assms(1), of p]
    have a: "p \<in> visitable s" "\<not> mFullBelow (heap s p)"
      "heap s' p = (heap s p)\<lparr>mFullBelow := True\<rparr>" by blast+
    then have "mFullBelow (heap s' p)" by simp
    with flagsOnly_heap [OF assms(2), of p] have "heap s'' p = heap s' p" by blast
    with a show ?thesis by simp
  qed
  have f: "root s'' = root s" "nextPtr s'' = nextPtr s" "mInnerNodeByID s'' = mInnerNodeByID s"
    "mLeafByID s'' = mLeafByID s" "mDirtyInnerNodes s'' = mDirtyInnerNodes s"
    "mDirtyLeafNodes s'' = mDirtyLeafNodes s" "mapSeq s'' = mapSeq s"
    using assms unfolding flagsOnly_def by simp_all
  show ?thesis unfolding flagsOnly_def using f h by blast
qed

lemma setFullBelow_sel:
  "root (setFullBelow s p) = root s" "nextPtr (setFullBelow s p) = nextPtr s"
  "mInnerNodeByID (setFullBelow s p) = mInnerNodeByID s"
  "mLeafByID (setFullBelow s p) = mLeafByID s"
  "mDirtyInnerNodes (setFullBelow s p) = mDirtyInnerNodes s"
  "mDirtyLeafNodes (setFullBelow s p) = mDirtyLeafNodes s"
  "mapSeq (setFullBelow s p) = mapSeq s"
  "heap (setFullBelow s p) q = (if q = p then (heap s p)\<lparr>mFullBelow := True\<rparr> else heap s q)"
  by (simp_all add: setFullBelow_def)

lemma setFullBelow_idem: "mFullBelow (heap s p) \<Longrightarrow> (heap s p)\<lparr>mFullBelow := True\<rparr> = heap s p"
  by (cases "heap s p") simp

lemma flagsOnly_setFullBelow:
  assumes "p \<in> visitable s"
  shows "flagsOnly s (setFullBelow s p)"
proof -
  have "heap (setFullBelow s p) q = heap s q \<or>
     (q \<in> visitable s \<and> \<not> mFullBelow (heap s q) \<and>
      heap (setFullBelow s p) q = (heap s q)\<lparr>mFullBelow := True\<rparr>)" for q
    using assms by (cases "mFullBelow (heap s p)") (simp_all add: setFullBelow_sel setFullBelow_idem)
  then show ?thesis unfolding flagsOnly_def by (simp add: setFullBelow_sel)
qed

lemma childToPush_ran: "childToPush s node i = Some d \<Longrightarrow> d \<in> ran (mInnerNodeByID s)"
  by (auto simp: childToPush_def getInner_def ran_def split: option.splits if_splits)

lemma map_filter_childToPush:
  "set (List.map_filter (childToPush s node) js) \<subseteq> visitable s"
  by (auto simp: List.map_filter_def visitable_def dest: childToPush_ran)

lemma gMN_while_unfold:
  assumes "(if 0 < mx \<and> stack \<noteq> []
            then case stack of [] \<Rightarrow> Some (mx, ids, hs, s)
                 | node # stack1 \<Rightarrow>
                     (case gMN_for s (heap s node) (mx, ids, hs, stack1, True) of
                        (mx', ids', hs', stack', all_leaves) \<Rightarrow>
                          loop (if all_leaves then setFullBelow s node else s) mx' ids' hs' stack')
            else Some (mx, ids, hs, s)) = Some y"
  shows "(\<not> (0 < mx \<and> stack \<noteq> []) \<and> y = (mx, ids, hs, s)) \<or>
         (\<exists>p st1. 0 < mx \<and> stack = p # st1 \<and>
            loop (if filter (childMissing s (heap s p)) [0..<32] = [] then setFullBelow s p else s)
              (mx - int (length (filter (childMissing s (heap s p)) [0..<32])))
              (ids @ take (nat mx) (map (getChildNodeID (inID (heap s p)))
                                     (filter (childMissing s (heap s p)) [0..<32])))
              (hs @ take (nat mx) (map (getChildHash (heap s p))
                                     (filter (childMissing s (heap s p)) [0..<32])))
              (rev (List.map_filter (childToPush s (heap s p)) [0..<32]) @ st1) = Some y)"
proof (cases "0 < mx \<and> stack \<noteq> []")
  case False
  with assms show ?thesis by auto
next
  case True
  then obtain p st1 where st: "stack = p # st1" by (cases stack) auto
  with assms True show ?thesis
    by (simp add: gMN_for_scan scanBranches_def)
qed

lemma gMN_while_induct [consumes 1, case_names base step]:
  assumes run: "gMN_while s0 mx0 ids0 hs0 stack0 = Some y0"
    and base: "\<And>s mx ids hs stack. \<not> (0 < mx \<and> stack \<noteq> []) \<Longrightarrow>
                 P s mx ids hs stack (mx, ids, hs, s)"
    and step: "\<And>s mx ids hs p st1 y. 0 < mx \<Longrightarrow>
       P (if filter (childMissing s (heap s p)) [0..<32] = [] then setFullBelow s p else s)
         (mx - int (length (filter (childMissing s (heap s p)) [0..<32])))
         (ids @ take (nat mx) (map (getChildNodeID (inID (heap s p)))
                                (filter (childMissing s (heap s p)) [0..<32])))
         (hs @ take (nat mx) (map (getChildHash (heap s p))
                                (filter (childMissing s (heap s p)) [0..<32])))
         (rev (List.map_filter (childToPush s (heap s p)) [0..<32]) @ st1) y \<Longrightarrow>
       P s mx ids hs (p # st1) y"
  shows "P s0 mx0 ids0 hs0 stack0 y0"
proof (rule gMN_while.raw_induct [where P = P, OF _ run])
  fix loop :: "SHAMap \<Rightarrow> int \<Rightarrow> SHAMapNode list \<Rightarrow> uint256 list \<Rightarrow> ptr list
     \<Rightarrow> (int \<times> SHAMapNode list \<times> uint256 list \<times> SHAMap) option"
  fix s mx ids hs stack y
  assume IH: "\<And>s mx ids hs stack y. loop s mx ids hs stack = Some y \<Longrightarrow> P s mx ids hs stack y"
  assume eq: "(if 0 < mx \<and> stack \<noteq> []
            then case stack of [] \<Rightarrow> Some (mx, ids, hs, s)
                 | node # stack1 \<Rightarrow>
                     (case gMN_for s (heap s node) (mx, ids, hs, stack1, True) of
                        (mx', ids', hs', stack', all_leaves) \<Rightarrow>
                          loop (if all_leaves then setFullBelow s node else s) mx' ids' hs' stack')
            else Some (mx, ids, hs, s)) = Some y"
  from gMN_while_unfold [OF eq] show "P s mx ids hs stack y"
  proof (elim disjE exE conjE)
    assume "\<not> (0 < mx \<and> stack \<noteq> [])" "y = (mx, ids, hs, s)"
    then show ?thesis using base by simp
  next
    fix p st1
    assume "0 < mx" "stack = p # st1"
      and "loop (if filter (childMissing s (heap s p)) [0..<32] = [] then setFullBelow s p else s)
              (mx - int (length (filter (childMissing s (heap s p)) [0..<32])))
              (ids @ take (nat mx) (map (getChildNodeID (inID (heap s p)))
                                     (filter (childMissing s (heap s p)) [0..<32])))
              (hs @ take (nat mx) (map (getChildHash (heap s p))
                                     (filter (childMissing s (heap s p)) [0..<32])))
              (rev (List.map_filter (childToPush s (heap s p)) [0..<32]) @ st1) = Some y"
    then show ?thesis using step IH by simp
  qed
qed

lemma gMN_while_flagsOnly_aux:
  assumes "gMN_while s mx ids hs stack = Some y"
  shows "set stack \<subseteq> visitable s \<longrightarrow> flagsOnly s (snd (snd (snd y)))"
  using assms
proof (induction rule: gMN_while_induct)
  case (base s mx ids hs stack)
  show ?case by (simp add: flagsOnly_refl)
next
  case (step s mx ids hs p st1 y)
  let ?s1 = "if filter (childMissing s (heap s p)) [0..<32] = [] then setFullBelow s p else s"
  let ?st' = "rev (List.map_filter (childToPush s (heap s p)) [0..<32]) @ st1"
  show ?case
  proof
    assume sub: "set (p # st1) \<subseteq> visitable s"
    then have pv: "p \<in> visitable s" by simp
    then have f1: "flagsOnly s ?s1" by (simp add: flagsOnly_setFullBelow flagsOnly_refl)
    then have v1: "visitable ?s1 = visitable s" by (rule visitable_flagsOnly)
    from sub map_filter_childToPush [of s "heap s p" "[0..<32]"]
    have "set ?st' \<subseteq> visitable s" by auto
    with v1 have "set ?st' \<subseteq> visitable ?s1" by simp
    with step.IH have "flagsOnly ?s1 (snd (snd (snd y)))" by blast
    with f1 show "flagsOnly s (snd (snd (snd y)))" by (rule flagsOnly_trans)
  qed
qed

lemma gMN_while_flagsOnly:
  assumes "gMN_while s mx ids hs stack = Some (mx', ids', hs', s')"
    and "set stack \<subseteq> visitable s"
  shows "flagsOnly s s'"
  using gMN_while_flagsOnly_aux [OF assms(1)] assms(2) by simp

lemma gMN_while_budget_aux:
  assumes "gMN_while s mx ids hs stack = Some y"
  shows "\<exists>new newh. fst (snd y) = ids @ new \<and> fst (snd (snd y)) = hs @ newh \<and>
          length newh = length new \<and> length new = nat mx - nat (fst y) \<and> fst y \<le> mx"
  using assms
proof (induction rule: gMN_while_induct)
  case (base s mx ids hs stack)
  show ?case by simp
next
  case (step s mx ids hs p st1 y)
  let ?miss = "filter (childMissing s (heap s p)) [0..<32]"
  let ?e = "take (nat mx) (map (getChildNodeID (inID (heap s p))) ?miss)"
  let ?eh = "take (nat mx) (map (getChildHash (heap s p)) ?miss)"
  let ?mx1 = "mx - int (length ?miss)"
  from step.IH obtain new newh where
    n: "fst (snd y) = (ids @ ?e) @ new" "fst (snd (snd y)) = (hs @ ?eh) @ newh"
       "length newh = length new" "length new = nat ?mx1 - nat (fst y)" "fst y \<le> ?mx1"
    by blast
  have le: "length ?e = nat mx - nat ?mx1"
    using step.hyps by (auto simp: min_def nat_diff_distrib)
  have "length (?e @ new) = nat mx - nat (fst y)"
    using le n(4) n(5) step.hyps by (simp add: min_def) linarith
  moreover have "length (?eh @ newh) = length (?e @ new)" using n(3) by simp
  moreover have "fst y \<le> mx" using n(5) by linarith
  ultimately show ?case using n(1,2)
    by (intro exI [of _ "?e @ new"] exI [of _ "?eh @ newh"]) simp
qed

lemma map_filter_append:
  "List.map_filter f (xs @ ys) = List.map_filter f xs @ List.map_filter f ys"
  by (simp add: List.map_filter_def)

lemma beyond_slots:
  assumes "length (mHashes node) \<le> i"
  shows "isEmptyBranch node i" "\<not> childMissing s node i" "childToPush s node i = None"
  using assms by (simp_all add: isEmptyBranch_def getChildHash_def childMissing_def childToPush_def)

lemma upt_split: "n \<le> m \<Longrightarrow> [0..<m] = [0..<n] @ [n..<m]"
  using upt_add_eq_append [of 0 n "m - n"] by simp

lemma scan_short:
  assumes "length (mHashes node) = n" and "n \<le> m"
  shows "scanBranches m s node st = scanBranches n s node st"
proof -
  have a: "filter (childMissing s node) [n..<m] = []"
    using assms by (auto simp: filter_empty_conv beyond_slots)
  have b: "List.map_filter (childToPush s node) [n..<m] = []"
    using assms by (auto simp: List.map_filter_def filter_empty_conv beyond_slots)
  have c: "List.map_filter f (xs @ ys) = List.map_filter f xs @ List.map_filter f ys" for f :: "nat \<Rightarrow> ptr option" and xs ys
    by (simp add: List.map_filter_def)
  show ?thesis
    by (simp add: scanBranches_def upt_split [OF assms(2)] a b c split: prod.splits)
qed

lemma scan_empty_prefix:
  assumes "\<forall>i<n. isEmptyBranch node i"
  shows "filter (childMissing s node) [0..<n] = []"
    and "List.map_filter (childToPush s node) [0..<n] = []"
  using assms
  by (auto simp: filter_empty_conv List.map_filter_def childMissing_def childToPush_def)

lemma gNF_fold_empty:
  "\<forall>i\<in>set js. isEmptyBranch node i \<Longrightarrow> fold (gNF_branch s node) js st = st"
  by (induction js arbitrary: st) (auto simp: gNF_branch_def split: prod.splits)

subsection \<open>What getNodeFat returns for an inner node\<close>

lemma gNF_branch_cases:
  "gNF_branch s node i (ret, ids, raws) =
     (if childMissing s node i then (False, ids, raws)
      else case childFat s node i of
             None \<Rightarrow> (ret, ids, raws)
           | Some c \<Rightarrow> (ret, ids @ [fst c], raws @ [snd c]))"
  by (auto simp: gNF_branch_def childMissing_def childFat_def split: option.splits)

lemma childFat_missing: "childMissing s node i \<Longrightarrow> childFat s node i = None"
  by (auto simp: childMissing_def childFat_def split: if_splits)

lemma gNF_fold:
  "fold (gNF_branch s node) js (ret, ids, raws) =
     (ret \<and> filter (childMissing s node) js = [],
      ids @ map fst (List.map_filter (childFat s node) js),
      raws @ map snd (List.map_filter (childFat s node) js))"
proof (induction js arbitrary: ret ids raws)
  case Nil
  show ?case by (simp add: List.map_filter_simps)
next
  case (Cons j js)
  show ?case
  proof (cases "childMissing s node j")
    case True
    then show ?thesis
      by (simp add: gNF_branch_cases Cons.IH List.map_filter_simps childFat_missing)
  next
    case False
    then show ?thesis
      by (cases "childFat s node j")
         (simp_all add: gNF_branch_cases Cons.IH List.map_filter_simps)
  qed
qed

lemma getNodeFat_inner:
  "\<not> isLeaf wanted \<Longrightarrow>
   getNodeFat s wanted ids raws =
     (case getInnerNode s wanted of
        None \<Rightarrow> (False, ids, raws)
      | Some p \<Rightarrow>
          (filter (childMissing s (heap s p)) [0..<32] = [],
           ids @ map fst (List.map_filter (childFat s (heap s p)) [0..<32]),
           raws @ map snd (List.map_filter (childFat s (heap s p)) [0..<32])))"
  by (simp add: getNodeFat_def gNF_fold split: option.splits)

subsection \<open>Nodes that store at most 16 slots\<close>

lemma scan_sixteen_slots:
  "length (mHashes node) \<le> 16 \<Longrightarrow> gMN_for s node st = scanBranches 16 s node st"
proof -
  assume a: "length (mHashes node) \<le> 16"
  have "scanBranches 32 s node st = scanBranches (length (mHashes node)) s node st"
    using a by (intro scan_short) simp_all
  moreover have "scanBranches 16 s node st = scanBranches (length (mHashes node)) s node st"
    using a by (intro scan_short) simp_all
  ultimately show ?thesis by (simp add: gMN_for_scan)
qed

subsection \<open>What holds when the flag is set: the node's own children are resident\<close>

lemma childMissing_flag [simp]:
  "childMissing s (node\<lparr>mFullBelow := b\<rparr>) = childMissing s node"
  by (simp add: fun_eq_iff childMissing_def isEmptyBranch_def isChildLeaf_def getChildHash_def
      getDepth_def)

lemma gMN_while_flag_children_aux:
  assumes "gMN_while s mx ids hs stack = Some y"
  shows "\<forall>p. mFullBelow (heap (snd (snd (snd y))) p) \<and> \<not> mFullBelow (heap s p) \<longrightarrow>
             (\<forall>i<32. \<not> childMissing s (heap s p) i)"
  using assms
proof (induction rule: gMN_while_induct)
  case (base s mx ids hs stack)
  show ?case by simp
next
  case (step s mx ids hs p st1 y)
  let ?miss = "filter (childMissing s (heap s p)) [0..<32]"
  let ?s1 = "if ?miss = [] then setFullBelow s p else s"
  show ?case
  proof (intro allI impI)
    fix q i :: nat
    assume a: "mFullBelow (heap (snd (snd (snd y))) q) \<and> \<not> mFullBelow (heap s q)" and i: "i < 32"
    show "\<not> childMissing s (heap s q) i"
    proof (cases "mFullBelow (heap ?s1 q)")
      case True
      with a have "?miss = []" "q = p"
        by (auto simp: setFullBelow_sel split: if_splits)
      then show ?thesis using i by (auto simp: filter_empty_conv)
    next
      case False
      with a step.IH i have "\<not> childMissing ?s1 (heap ?s1 q) i" by blast
      then show ?thesis
        by (auto simp: setFullBelow_sel split: if_splits)
    qed
  qed
qed

lemma getMissingNodes_flag_children:
  assumes "getMissingNodes s nodeIDs hashes mx = Some (Inr (nodeIDs', hashes', s'))"
    and "mFullBelow (heap s' p)" and "\<not> mFullBelow (heap s p)" and "i < 32"
  shows "\<not> childMissing s (heap s p) i"
proof -
  from assms(1-3) obtain r mx' where
    "gMN_while s mx nodeIDs hashes [r] = Some (mx', nodeIDs', hashes', s')"
    by (auto simp: getMissingNodes_def split: option.splits if_splits)
  from gMN_while_flag_children_aux [OF this] assms(2-4) show ?thesis by simp
qed

subsection \<open>The traversal returns when the inner-by-ID index is finite\<close>

lemma finite_visitable: "finite (ran (mInnerNodeByID s)) \<Longrightarrow> finite (visitable s)"
proof -
  assume f: "finite (ran (mInnerNodeByID s))"
  have "{p. root s = Some p} \<subseteq> set_option (root s)" by auto
  then have "finite {p. root s = Some p}" by (rule finite_subset) simp
  with f show ?thesis by (simp add: visitable_def)
qed

lemma visitable_setFullBelow [simp]: "visitable (setFullBelow s p) = visitable s"
  by (simp add: visitable_def setFullBelow_sel)

lemma heap_setFullBelow_full: "mFullBelow (heap s p) \<Longrightarrow> heap (setFullBelow s p) = heap s"
  by (simp add: fun_eq_iff setFullBelow_sel setFullBelow_idem)

lemma unfilled_setFullBelow: "unfilled (setFullBelow s p) = unfilled s - {p}"
  by (auto simp: unfilled_def setFullBelow_sel)

lemma childToPush_not_full: "childToPush s node i = Some d \<Longrightarrow> \<not> mFullBelow (heap s d)"
  by (auto simp: childToPush_def isFullBelow_def split: option.splits if_splits)

lemma pushed_not_full:
  assumes "q \<in> set (List.map_filter (childToPush s node) js)"
  shows "\<not> mFullBelow (heap s q)"
proof -
  from assms obtain i where "childToPush s node i = Some q"
    by (auto simp: List.map_filter_def)
  then show ?thesis by (rule childToPush_not_full)
qed

lemma fullOnStack_pushed: "fullOnStack s (rev (List.map_filter (childToPush s node) js) @ st) = fullOnStack s st"
proof -
  have "\<forall>q \<in> set (rev (List.map_filter (childToPush s node) js)). \<not> mFullBelow (heap s q)"
    by (auto dest: pushed_not_full)
  then have "filter (\<lambda>q. mFullBelow (heap s q)) (rev (List.map_filter (childToPush s node) js)) = []"
    by (simp add: filter_empty_conv)
  then show ?thesis by (simp add: fullOnStack_def)
qed

lemma wf_gMN_order: "wf gMN_order"
  unfolding gMN_order_def by (intro wf_inv_image wf_lex_prod wf_less_than)

lemma gMN_order_iff:
  "((s', mx', st'), (s, mx, st)) \<in> gMN_order \<longleftrightarrow>
     nat mx' < nat mx \<or>
     (nat mx' = nat mx \<and> (card (unfilled s') < card (unfilled s) \<or>
        (card (unfilled s') = card (unfilled s) \<and> fullOnStack s' st' < fullOnStack s st)))"
  by (simp add: gMN_order_def)

lemma finite_unfilled: "finite (ran (mInnerNodeByID s)) \<Longrightarrow> finite (unfilled s)"
proof -
  assume "finite (ran (mInnerNodeByID s))"
  then have "finite (visitable s)" by (rule finite_visitable)
  moreover have "unfilled s \<subseteq> visitable s" by (auto simp: unfilled_def)
  ultimately show ?thesis by (rule rev_finite_subset)
qed

lemma gMN_round_decreases:
  assumes fin: "finite (ran (mInnerNodeByID s))" and pv: "p \<in> visitable s" and pos: "0 < mx"
  shows "((if filter (childMissing s (heap s p)) [0..<32] = [] then setFullBelow s p else s,
           mx - int (length (filter (childMissing s (heap s p)) [0..<32])),
           rev (List.map_filter (childToPush s (heap s p)) [0..<32]) @ st1),
          (s, mx, p # st1)) \<in> gMN_order"
proof -
  let ?miss = "filter (childMissing s (heap s p)) [0..<32]"
  let ?st' = "rev (List.map_filter (childToPush s (heap s p)) [0..<32]) @ st1"
  show ?thesis
  proof (cases "?miss = []")
    case False
    then have "0 < length ?miss" by simp
    with pos have "nat (mx - int (length ?miss)) < nat mx" by linarith
    with False show ?thesis by (simp only: gMN_order_iff if_False) simp
  next
    case e: True
    show ?thesis
    proof (cases "mFullBelow (heap s p)")
      case False
      with pv have "p \<in> unfilled s" by (simp add: unfilled_def)
      with finite_unfilled [OF fin] have "card (unfilled s - {p}) < card (unfilled s)"
        by (rule card_Diff1_less)
      then have "card (unfilled (setFullBelow s p)) < card (unfilled s)"
        by (simp only: unfilled_setFullBelow)
      with e show ?thesis by (simp only: gMN_order_iff if_True) simp
    next
      case full: True
      then have h: "heap (setFullBelow s p) = heap s" by (rule heap_setFullBelow_full)
      have u: "unfilled (setFullBelow s p) = unfilled s"
        by (simp add: unfilled_def h)
      have "fullOnStack (setFullBelow s p) ?st' = fullOnStack s ?st'"
        by (simp add: fullOnStack_def h)
      also have "\<dots> = fullOnStack s st1" by (rule fullOnStack_pushed)
      also have "\<dots> < fullOnStack s (p # st1)" using full by (simp add: fullOnStack_def)
      finally have "fullOnStack (setFullBelow s p) ?st' < fullOnStack s (p # st1)" .
      with e u show ?thesis by (simp only: gMN_order_iff if_True) simp
    qed
  qed
qed

lemma gMN_while_returns_aux:
  "finite (ran (mInnerNodeByID (fst x))) \<Longrightarrow> set (snd (snd x)) \<subseteq> visitable (fst x) \<Longrightarrow>
   \<exists>y. gMN_while (fst x) (fst (snd x)) ids hs (snd (snd x)) = Some y"
proof (induction x arbitrary: ids hs rule: wf_induct_rule [OF wf_gMN_order])
  case (1 x)
  obtain s mx stack where x: "x = (s, mx, stack)" by (cases x) auto
  from 1(2,3) have fin: "finite (ran (mInnerNodeByID s))" and sub: "set stack \<subseteq> visitable s"
    unfolding x fst_conv snd_conv .
  have "\<exists>y. gMN_while s mx ids hs stack = Some y"
  proof (cases "0 < mx \<and> stack \<noteq> []")
    case False
    then have "gMN_while s mx ids hs stack = Some (mx, ids, hs, s)"
      by (intro gMN_while_stop) auto
    then show ?thesis by blast
  next
    case True
    then obtain p st1 where st: "stack = p # st1" by (cases stack) auto
    let ?miss = "filter (childMissing s (heap s p)) [0..<32]"
    let ?s1 = "if ?miss = [] then setFullBelow s p else s"
    let ?mx1 = "mx - int (length ?miss)"
    let ?st' = "rev (List.map_filter (childToPush s (heap s p)) [0..<32]) @ st1"
    let ?ids1 = "ids @ take (nat mx) (map (getChildNodeID (inID (heap s p))) ?miss)"
    let ?hs1 = "hs @ take (nat mx) (map (getChildHash (heap s p)) ?miss)"
    have pv: "p \<in> visitable s" using sub st by simp
    have less: "((?s1, ?mx1, ?st'), x) \<in> gMN_order"
      unfolding x st using fin pv True by (intro gMN_round_decreases) simp_all
    have "mInnerNodeByID ?s1 = mInnerNodeByID s" by (simp add: setFullBelow_sel)
    with fin have fin1: "finite (ran (mInnerNodeByID (fst (?s1, ?mx1, ?st'))))"
      unfolding fst_conv by simp
    have "set ?st' \<subseteq> visitable s"
      using sub st map_filter_childToPush [of s "heap s p" "[0..<32]"] by auto
    moreover have "visitable ?s1 = visitable s" by simp
    ultimately have sub1: "set (snd (snd (?s1, ?mx1, ?st'))) \<subseteq> visitable (fst (?s1, ?mx1, ?st'))"
      unfolding fst_conv snd_conv by simp
    from 1(1) [OF less fin1 sub1, of ?ids1 ?hs1]
    obtain y where y: "gMN_while ?s1 ?mx1 ?ids1 ?hs1 ?st' = Some y"
      unfolding fst_conv snd_conv by blast
    have "gMN_while s mx ids hs (p # st1) = gMN_while ?s1 ?mx1 ?ids1 ?hs1 ?st'"
      using True by (subst gMN_while_step) (simp_all add: scanBranches_def)
    with y st have "gMN_while s mx ids hs stack = Some y" by simp
    then show ?thesis by blast
  qed
  then show ?case unfolding x fst_conv snd_conv .
qed

lemma gMN_while_returns:
  assumes "finite (ran (mInnerNodeByID s))" and "set stack \<subseteq> visitable s"
  shows "\<exists>y. gMN_while s mx ids hs stack = Some y"
  using gMN_while_returns_aux [of "(s, mx, stack)" ids hs] assms by simp

lemma getMissingNodes_returns:
  assumes "finite (ran (mInnerNodeByID s))" and "root s = Some r"
  shows "\<exists>nodeIDs' hashes' s'. getMissingNodes s nodeIDs hashes mx = Some (Inr (nodeIDs', hashes', s'))"
proof -
  have "set [r] \<subseteq> visitable s" using assms(2) by (simp add: visitable_def)
  from gMN_while_returns [OF assms(1) this, of mx nodeIDs hashes]
  obtain y where "gMN_while s mx nodeIDs hashes [r] = Some y" by blast
  then show ?thesis using assms(2)
    by (cases y) (auto simp: getMissingNodes_def)
qed

section \<open>Evaluation lemmas\<close>

lemma walkFrom_numeral:
  "walkFrom (numeral k) s ident p =
     (let node = heap s p in
      if getDepth node = mDepth ident then p
      else let branch = selectBranch (inID node) (mNodeID ident) in
        if branch < 0 then p
        else if isEmptyBranch node (nat branch) then p
        else if isChildLeaf node then p
        else case getInner s (getChildNodeID (inID node) (nat branch))
                    (getChildHash node (nat branch)) of
               None \<Rightarrow> p
             | Some q \<Rightarrow> walkFrom (pred_numeral k) s ident q)"
  by (simp add: numeral_eq_Suc)

lemmas node_defs = getDepth_def getNodeID_def getChildHash_def isEmptyBranch_def isChildLeaf_def
  isFullBelow_def getNodeHash_def isRoot_def isLeaf_def SHAMapNode_default_def
  selectBranch_def nibblePos_def getChildNodeID_def

lemmas store_defs = getInner_def getLeaf_def getInnerNode_def getLeafNode_def
  checkCacheNode_def checkCacheLeaf_def walkTo_def walkFrom_numeral

lemma ex_map2_sel:
  "heap ex_map2 = ex_heap2" "nextPtr ex_map2 = 2" "root ex_map2 = Some 0"
  "mInnerNodeByID ex_map2 = [SHAMapNode_default \<mapsto> 0, \<lparr>mDepth = 1, mNodeID = 0\<rparr> \<mapsto> 1]"
  "mLeafByID ex_map2 = Map.empty" "mDirtyInnerNodes ex_map2 = None"
  "mDirtyLeafNodes ex_map2 = None" "mapSeq ex_map2 = 0"
  by (simp_all add: ex_map2_def)

lemma ex_fresh_sel:
  "heap ex_fresh = (\<lambda>p. ex_node SHAMapNode_default [] 0)" "nextPtr ex_fresh = 1"
  "root ex_fresh = Some 0" "mInnerNodeByID ex_fresh = [SHAMapNode_default \<mapsto> 0]"
  "mLeafByID ex_fresh = Map.empty" "mDirtyInnerNodes ex_fresh = Some Map.empty"
  "mDirtyLeafNodes ex_fresh = Some Map.empty" "mapSeq ex_fresh = 0"
  by (simp_all add: ex_fresh_def)

lemmas ex_sel = ex_map2_sel ex_fresh_sel ex_node_def ex_heap2_def

lemma length_be_bytes: "length (be_bytes n v) = n"
  by (induction n arbitrary: v) auto

lemma length_add256: "length (add256 w) = 32"
  by (simp add: add256_def length_be_bytes)

lemma length_concat_add256: "length (concat (map add256 hs)) = 32 * length hs"
  by (induction hs) (auto simp: length_add256)

lemma new_inner_lenHash:
  "length raw = 512 \<Longrightarrow>
   new_SHAMapInnerNode lenHash ident raw seq =
     Inr \<lparr>inID = ident, mHashes = map (\<lambda>i. get256 raw (32 * i)) [0..<16], mHash = 512,
          mFullBelow = False, mSeq = seq\<rparr>"
  by (simp add: new_SHAMapInnerNode_def lenHash_def length_concat_add256 Let_def)

lemma new_inner_ident:
  "new_SHAMapInnerNode H ident raw seq = Inr n \<Longrightarrow> inID n = ident \<and> \<not> mFullBelow n"
  by (auto simp: new_SHAMapInnerNode_def Let_def split: if_splits)

lemma ex_new_inner0: "new_SHAMapInnerNode lenHash ident ex_raw0 0 = Inr (ex_inner0 ident)"
  by (simp add: new_inner_lenHash ex_raw0_def ex_inner0_def)

lemma ex_walk_late: "walkTo ex_map2 \<lparr>mDepth = 1, mNodeID = 1\<rparr> = Some 1"
  by (simp add: store_defs node_defs ex_sel)

lemma ex_walk_deep: "walkTo ex_map2 \<lparr>mDepth = 3, mNodeID = 0\<rparr> = Some 1"
  by (simp add: store_defs node_defs ex_sel)

lemma ex_walk_hook: "walkTo ex_map2 \<lparr>mDepth = 2, mNodeID = 0\<rparr> = Some 1"
  by (simp add: store_defs node_defs ex_sel)

lemma ex_push_accepted:
  "addKnownNode False lenHash ex_map2 \<lparr>mDepth = 2, mNodeID = 0\<rparr> ex_raw0 = Inr (True, ex_map3)"
  by (simp add: addKnownNode_def ex_walk_hook ex_new_inner0 ex_map3_def
      node_defs checkCacheNode_def ex_sel ex_inner0_def)

lemma ex_root_accepted:
  "addRootNode lenHash ex_fresh ex_raw0 = Inr (True, ex_rooted)"
  by (simp add: addRootNode_def ex_new_inner0 ex_rooted_def
      ex_sel getNodeHash_def ex_inner0_def)

lemma ex_root_hash_accepted:
  "addRootNode_hash False lenHash ex_fresh 512 ex_raw0 = Inr (True, ex_rooted)"
  by (simp add: addRootNode_hash_def ex_new_inner0 ex_rooted_def
      ex_sel getNodeHash_def ex_inner0_def)

lemma ex_rooted_root: "root ex_rooted = Some 1 \<and> getNodeHash (heap ex_rooted 1) \<noteq> 0"
  by (simp add: ex_rooted_def installInner_def getNodeHash_def ex_inner0_def)

lemma ex_wide_sel:
  "heap ex_wide = (\<lambda>p. ex_node SHAMapNode_default (replicate 16 0 @ [5]) 9)"
  "root ex_wide = Some 0" "mInnerNodeByID ex_wide = [SHAMapNode_default \<mapsto> 0]"
  "mLeafByID ex_wide = Map.empty"
  by (simp_all add: ex_wide_def)

lemma upt_small: "[0..<1] = [0::nat]" "[0..<3] = [0, 1, 2::nat]"
  by (simp_all add: upt_rec)

lemmas scan_eval = scanBranches_def childMissing_def childToPush_def upt_small
  List.map_filter_simps node_defs store_defs

lemma upt_17: "[0..<17] = [0..<16] @ [16]"
  using upt_Suc_append [of 0 16] by simp

lemma ex_scan0:
  "scanBranches 32 ex_map2 (ex_heap2 0) (mx, ids, hs, st, True) = (mx, ids, hs, 1 # st, True)"
  by (subst scan_short [where n = 1]) (simp_all add: scan_eval ex_sel)

lemma ex_scan1:
  "scanBranches 32 (setFullBelow ex_map2 0) (ex_heap2 (Suc 0)) (mx, ids, hs, st, True) =
     (mx - 2,
      ids @ take (nat mx) [getChildNodeID \<lparr>mDepth = 1, mNodeID = 0\<rparr> 0,
                           getChildNodeID \<lparr>mDepth = 1, mNodeID = 0\<rparr> 2],
      hs @ take (nat mx) [512, 5], st, False)"
  by (subst scan_short [where n = 3]) (simp_all add: scan_eval ex_sel setFullBelow_sel)

lemma ex_gmn_while_128:
  "gMN_while ex_map2 128 [] [] [0] =
     Some (126, [getChildNodeID \<lparr>mDepth = 1, mNodeID = 0\<rparr> 0,
                 getChildNodeID \<lparr>mDepth = 1, mNodeID = 0\<rparr> 2], [512, 5],
           setFullBelow ex_map2 0)"
proof -
  have "gMN_while ex_map2 128 [] [] [0] = gMN_while (setFullBelow ex_map2 0) 128 [] [] [1]"
    by (subst gMN_while_step, simp, simp only: ex_map2_sel ex_scan0 prod.case if_True)
  also have "\<dots> = Some (126, [getChildNodeID \<lparr>mDepth = 1, mNodeID = 0\<rparr> 0,
                 getChildNodeID \<lparr>mDepth = 1, mNodeID = 0\<rparr> 2], [512, 5],
           setFullBelow ex_map2 0)"
    by (subst gMN_while_step, simp,
        simp add: setFullBelow_sel ex_map2_sel ex_scan1 gMN_while_stop)
  finally show ?thesis .
qed

lemma ex_gmn_while_1:
  "gMN_while ex_map2 1 [] [] [0] =
     Some (- 1, [getChildNodeID \<lparr>mDepth = 1, mNodeID = 0\<rparr> 0], [512], setFullBelow ex_map2 0)"
proof -
  have "gMN_while ex_map2 1 [] [] [0] = gMN_while (setFullBelow ex_map2 0) 1 [] [] [1]"
    by (subst gMN_while_step, simp, simp only: ex_map2_sel ex_scan0 prod.case if_True)
  also have "\<dots> = Some (- 1, [getChildNodeID \<lparr>mDepth = 1, mNodeID = 0\<rparr> 0], [512],
           setFullBelow ex_map2 0)"
    by (subst gMN_while_step, simp,
        simp add: setFullBelow_sel ex_map2_sel ex_scan1 gMN_while_stop)
  finally show ?thesis .
qed

lemma ex_root_not_full: "\<not> isFullBelow (heap ex_map2 0)"
  by (simp add: isFullBelow_def ex_sel)

lemma ex_gmn_128:
  "getMissingNodes ex_map2 [] [] 128 =
     Some (Inr ([getChildNodeID \<lparr>mDepth = 1, mNodeID = 0\<rparr> 0,
                 getChildNodeID \<lparr>mDepth = 1, mNodeID = 0\<rparr> 2], [512, 5],
                setFullBelow ex_map2 0))"
  by (simp add: getMissingNodes_def ex_gmn_while_128 ex_map2_sel(3) ex_root_not_full)

lemma ex_gmn_1:
  "getMissingNodes ex_map2 [] [] 1 =
     Some (Inr ([getChildNodeID \<lparr>mDepth = 1, mNodeID = 0\<rparr> 0], [512], setFullBelow ex_map2 0))"
  by (simp add: getMissingNodes_def ex_gmn_while_1 ex_map2_sel(3) ex_root_not_full)

lemma ex_missingBelow: "missingBelow (setFullBelow ex_map2 0) 0"
proof -
  let ?s = "setFullBelow ex_map2 0"
  have m: "childMissing ?s (heap ?s 1) 0"
    by (simp add: childMissing_def node_defs store_defs ex_sel setFullBelow_sel)
  have lt: "(0::nat) < 32" by simp
  have m1: "missingBelow ?s 1"
    by (rule missingBelow.here [OF lt m])
  have g: "getInner ?s (getChildNodeID (inID (heap ?s 0)) 0) (getChildHash (heap ?s 0) 0) = Some 1"
    by (simp add: node_defs store_defs ex_sel setFullBelow_sel)
  have e: "\<not> isEmptyBranch (heap ?s 0) 0" and l: "\<not> isChildLeaf (heap ?s 0)"
    by (simp_all add: node_defs ex_sel setFullBelow_sel)
  show ?thesis
    by (rule missingBelow.below [OF lt e l g m1])
qed

lemma ex_gmn_again:
  "getMissingNodes (setFullBelow ex_map2 0) [] [] 128 = Some (Inr ([], [], setFullBelow ex_map2 0))"
  by (simp add: getMissingNodes_def isFullBelow_def setFullBelow_sel ex_map2_sel(3))

lemma ex_root_miss: "filter (childMissing ex_map2 (ex_heap2 0)) [0..<32] = []"
  and ex_root_push: "List.map_filter (childToPush ex_map2 (ex_heap2 0)) [0..<32] = [1]"
  using ex_scan0 [of 0 "[]" "[]" "[]"] by (simp_all add: scanBranches_def)

lemma ex_for0: "gMN_for ex_map2 (ex_heap2 0) (1, [], [], [], True) = (1, [], [], [1], True)"
  by (simp add: gMN_for_scan ex_scan0)

lemma ex_child_facts:
  "childMissing (setFullBelow ex_map2 0) (ex_heap2 1) 0"
  "\<not> childMissing (setFullBelow ex_map2 0) (ex_heap2 1) 1"
  "childMissing (setFullBelow ex_map2 0) (ex_heap2 1) 2"
  "childToPush (setFullBelow ex_map2 0) (ex_heap2 1) 1 = None"
  by (simp_all add: childMissing_def childToPush_def node_defs store_defs ex_sel)

lemma ex_for1:
  "gMN_for (setFullBelow ex_map2 0) (ex_heap2 1) (1, [], [], [], True) =
     (- 1, [getChildNodeID \<lparr>mDepth = 1, mNodeID = 0\<rparr> 0], [512], [], False)"
  using ex_scan1 [of 1 "[]" "[]" "[]"] by (simp add: gMN_for_scan)

lemma ex_wide_empty: "\<forall>i<16. isEmptyBranch (ex_node SHAMapNode_default (replicate 16 0 @ [5]) 9) i"
  by (simp add: isEmptyBranch_def getChildHash_def ex_node_def nth_append)

lemma ex_wide_scan16:
  "scanBranches 16 ex_wide (heap ex_wide 0) (128, [], [], [], True) = (128, [], [], [], True)"
  by (simp add: scanBranches_def ex_wide_sel scan_empty_prefix [OF ex_wide_empty])

lemma ex_wide_scan32:
  "scanBranches 32 ex_wide (heap ex_wide 0) (128, [], [], [], True) =
     (127, [getChildNodeID SHAMapNode_default 16], [5], [], False)"
proof -
  have "scanBranches 32 ex_wide (heap ex_wide 0) (128, [], [], [], True) =
        scanBranches 17 ex_wide (heap ex_wide 0) (128, [], [], [], True)"
    by (rule scan_short) (simp_all add: ex_wide_sel ex_node_def)
  also have "\<dots> = (127, [getChildNodeID SHAMapNode_default 16], [5], [], False)"
    by (simp add: scanBranches_def upt_17 ex_wide_sel scan_empty_prefix [OF ex_wide_empty]
        List.map_filter_simps map_filter_append)
       (simp add: childMissing_def childToPush_def ex_node_def isEmptyBranch_def getChildHash_def
        isChildLeaf_def getDepth_def getInner_def getChildNodeID_def SHAMapNode_default_def
        ex_wide_sel nth_append)
  finally show ?thesis .
qed












section \<open>addKnownNode: the walk result\<close>

text \<open>
  C3. Let the pushed ID be no root and its node not be cached, and let \<open>walkTo\<close> give the
  inner node \<open>a\<close>. If the depth of \<open>a\<close> is the depth of the ID, addKnownNode returns true
  and the map is the one it was given. If the depth of \<open>a\<close> is neither the depth of the ID
  nor one less, addKnownNode returns false and the map is the one it was given. Both hold
  with assertions compiled in or out. In this store the walk and the cache test read the same
  index, so the first case arises only for an ID that the index does not hold as it is written
  while the walk, which follows the significant nibbles alone, still arrives at its depth: the
  instance below pushes an ID whose key has bits beyond its depth.
\<close>

theorem addKnownNode_walk_depth:
  assumes "\<not> isRoot node"
    and "\<not> (if isLeaf node then checkCacheLeaf s node else checkCacheNode s node)"
    and "walkTo s node = Some a"
  shows "(getDepth (heap s a) = mDepth node \<longrightarrow>
            addKnownNode ndebug H s node rawNode = Inr (True, s)) \<and>
         (getDepth (heap s a) \<noteq> mDepth node \<and> getDepth (heap s a) \<noteq> mDepth node - 1 \<longrightarrow>
            addKnownNode ndebug H s node rawNode = Inr (False, s))"
  using assms by (simp add: addKnownNode_def)

theorem addKnownNode_walk_depth_witness:
  "walkTo ex_map2 \<lparr>mDepth = 1, mNodeID = 1\<rparr> = Some 1 \<and>
   getDepth (heap ex_map2 1) = 1 \<and>
   addKnownNode False lenHash ex_map2 \<lparr>mDepth = 1, mNodeID = 1\<rparr> [] = Inr (True, ex_map2) \<and>
   walkTo ex_map2 \<lparr>mDepth = 3, mNodeID = 0\<rparr> = Some 1 \<and>
   addKnownNode False lenHash ex_map2 \<lparr>mDepth = 3, mNodeID = 0\<rparr> [] = Inr (False, ex_map2)"
  using addKnownNode_walk_depth [of "\<lparr>mDepth = 1, mNodeID = 1\<rparr>" ex_map2 1 False lenHash "[]"]
    addKnownNode_walk_depth [of "\<lparr>mDepth = 3, mNodeID = 0\<rparr>" ex_map2 1 False lenHash "[]"]
    ex_walk_late ex_walk_deep
  by (simp add: isRoot_def isLeaf_def checkCacheNode_def getDepth_def ex_sel SHAMapNode_default_def)

text \<open>
  C9. Let the pushed ID be no root and its node not be cached. If \<open>walkTo\<close> gives null,
  addKnownNode, built without assertions, passes \<open>assert(false)\<close> and returns true, and the
  map is the one it was given: no node is installed. Built with assertions, the call stops at
  that assertion, and nothing is installed either.
\<close>

theorem addKnownNode_null_walk:
  assumes "\<not> isRoot node"
    and "\<not> (if isLeaf node then checkCacheLeaf s node else checkCacheNode s node)"
    and "walkTo s node = None"
  shows "addKnownNode True H s node rawNode = Inr (True, s) \<and>
         addKnownNode False H s node rawNode = Inl AssertionFailed"
  using assms by (simp add: addKnownNode_def)

theorem addKnownNode_null_walk_witness:
  "walkTo (ex_map2\<lparr>root := None\<rparr>) \<lparr>mDepth = 2, mNodeID = 0\<rparr> = None \<and>
   addKnownNode True lenHash (ex_map2\<lparr>root := None\<rparr>) \<lparr>mDepth = 2, mNodeID = 0\<rparr> []
     = Inr (True, ex_map2\<lparr>root := None\<rparr>)"
  using addKnownNode_null_walk [of "\<lparr>mDepth = 2, mNodeID = 0\<rparr>" "ex_map2\<lparr>root := None\<rparr>" lenHash "[]"]
  by (simp add: isRoot_def isLeaf_def checkCacheNode_def walkTo_def ex_sel SHAMapNode_default_def)

section \<open>addKnownNode: hooking the node under its parent\<close>



section \<open>addRootNode\<close>

text \<open>
  C8. Let the map have a root whose hash is zero, and let the bytes parse as an inner
  node. If the hash of the parsed node is not the expected hash, addRootNode with an
  expected hash returns false and the map (root, inner-by-ID index, dirty set) is the one
  it was given. If the hashes agree, it returns true, the parsed node is the new root, the
  inner-by-ID index maps the root ID to it, and so does the dirty-inner set when dirty
  tracking is enabled; without dirty tracking there is still no dirty set.
\<close>

theorem addRootNode_hash_checked:
  assumes "root s = Some r"
    and "getNodeHash (heap s r) = 0"
    and "new_SHAMapInnerNode H SHAMapNode_default rootNode 0 = Inr node"
  shows "(getNodeHash node \<noteq> hash \<longrightarrow>
            addRootNode_hash ndebug H s hash rootNode = Inr (False, s)) \<and>
         (getNodeHash node = hash \<longrightarrow>
            (\<exists>s'. addRootNode_hash ndebug H s hash rootNode = Inr (True, s') \<and>
                  root s' = Some (nextPtr s) \<and>
                  heap s' (nextPtr s) = node \<and>
                  inID node = SHAMapNode_default \<and>
                  mInnerNodeByID s' = (mInnerNodeByID s)(SHAMapNode_default \<mapsto> nextPtr s) \<and>
                  (case mDirtyInnerNodes s of
                     None \<Rightarrow> mDirtyInnerNodes s' = None
                   | Some d \<Rightarrow> mDirtyInnerNodes s' = Some (d(SHAMapNode_default \<mapsto> nextPtr s)))))"
proof -
  have ident: "inID node = SHAMapNode_default"
    using assms(3) by (simp add: new_inner_ident)
  show ?thesis
    using assms ident
    by (auto simp: addRootNode_hash_def installInner_def split: option.splits)
qed

theorem addRootNode_hash_checked_witness:
  "root ex_fresh = Some 0 \<and> getNodeHash (heap ex_fresh 0) = 0 \<and>
   addRootNode_hash False lenHash ex_fresh 7 (replicate 512 0) = Inr (False, ex_fresh) \<and>
   (\<exists>s'. addRootNode_hash False lenHash ex_fresh 512 (replicate 512 0) = Inr (True, s') \<and>
         root s' = Some 1 \<and>
         mInnerNodeByID s' = [SHAMapNode_default \<mapsto> 1] \<and>
         mDirtyInnerNodes s' = Some [SHAMapNode_default \<mapsto> 1])"
  using addRootNode_hash_checked [of ex_fresh 0 lenHash "replicate 512 0" _ 7 False,
      OF _ _ new_inner_lenHash]
    addRootNode_hash_checked [of ex_fresh 0 lenHash "replicate 512 0" _ 512 False,
      OF _ _ new_inner_lenHash]
  by (auto simp: ex_sel getNodeHash_def)

section \<open>Duplicate pushes\<close>

lemma addKnownNode_replay:
  assumes "addKnownNode ndebug H s node rawNode = Inr (True, s')"
  shows "addKnownNode ndebug H s' node rawNode = Inr (True, s')"
proof (cases "s' = s")
  case True
  with assms show ?thesis by simp
next
  case False
  from assms have nr: "\<not> (\<not> ndebug \<and> isRoot node)"
    by (auto simp: addKnownNode_def split: if_splits)
  from assms False have "if isLeaf node then checkCacheLeaf s' node else checkCacheNode s' node"
    by (auto simp: addKnownNode_def Let_def installLeaf_def installInner_def
        checkCacheLeaf_def checkCacheNode_def split: if_splits option.splits sum.splits)
  with nr show ?thesis
    by (simp add: addKnownNode_def)
qed

text \<open>
  C7. When the map has a root with non-zero hash, addRootNode returns true and the map is
  the one it was given; so does the variant with an expected hash, which asserts that the
  root's hash is the expected one (so: built without assertions, or when the two agree).
  When the pushed node is cached (as a leaf or as an inner node, by \<open>isLeaf\<close> of its ID),
  addKnownNode returns true and the map is the one it was given. Hence a push that was
  accepted is accepted again on the map it produced, and that map stays as it is: for
  addKnownNode always, for addRootNode when the root it left has a non-zero hash.
\<close>

theorem duplicate_push_succeeds:
  "(root s = Some r \<and> getNodeHash (heap s r) \<noteq> 0 \<longrightarrow>
      addRootNode H s rootNode = Inr (True, s)) \<and>
   (root s = Some r \<and> getNodeHash (heap s r) \<noteq> 0 \<and> (ndebug \<or> getNodeHash (heap s r) = hash) \<longrightarrow>
      addRootNode_hash ndebug H s hash rootNode = Inr (True, s)) \<and>
   ((ndebug \<or> \<not> isRoot node) \<and>
    (if isLeaf node then checkCacheLeaf s node else checkCacheNode s node) \<longrightarrow>
      addKnownNode ndebug H s node rawNode = Inr (True, s)) \<and>
   (addKnownNode ndebug H s node rawNode = Inr (True, s') \<longrightarrow>
      addKnownNode ndebug H s' node rawNode = Inr (True, s')) \<and>
   (addRootNode H s rootNode = Inr (True, s') \<and> root s' = Some r' \<and>
    getNodeHash (heap s' r') \<noteq> 0 \<longrightarrow>
      addRootNode H s' rootNode = Inr (True, s')) \<and>
   (addRootNode_hash ndebug H s hash rootNode = Inr (True, s') \<and> root s' = Some r' \<and>
    getNodeHash (heap s' r') \<noteq> 0 \<longrightarrow>
      addRootNode_hash ndebug H s' hash rootNode = Inr (True, s'))"
proof (intro conjI impI)
  assume "addKnownNode ndebug H s node rawNode = Inr (True, s')"
  then show "addKnownNode ndebug H s' node rawNode = Inr (True, s')"
    by (rule addKnownNode_replay)
next
  assume a: "addRootNode_hash ndebug H s hash rootNode = Inr (True, s') \<and> root s' = Some r' \<and>
    getNodeHash (heap s' r') \<noteq> 0"
  show "addRootNode_hash ndebug H s' hash rootNode = Inr (True, s')"
  proof (cases "s' = s")
    case True
    with a show ?thesis by simp
  next
    case False
    with a have "getNodeHash (heap s' r') = hash"
      by (auto simp: addRootNode_hash_def installInner_def
          split: option.splits if_splits sum.splits)
    with a show ?thesis by (simp add: addRootNode_hash_def)
  qed
qed (auto simp: addRootNode_def addRootNode_hash_def addKnownNode_def)

theorem duplicate_push_succeeds_witness:
  "addRootNode lenHash ex_map2 [] = Inr (True, ex_map2) \<and>
   addRootNode_hash False lenHash ex_map2 9 [] = Inr (True, ex_map2) \<and>
   addKnownNode False lenHash ex_map2 \<lparr>mDepth = 1, mNodeID = 0\<rparr> [] = Inr (True, ex_map2) \<and>
   addKnownNode False lenHash ex_map2 \<lparr>mDepth = 2, mNodeID = 0\<rparr> ex_raw0 = Inr (True, ex_map3) \<and>
   addKnownNode False lenHash ex_map3 \<lparr>mDepth = 2, mNodeID = 0\<rparr> ex_raw0 = Inr (True, ex_map3) \<and>
   addRootNode lenHash ex_fresh ex_raw0 = Inr (True, ex_rooted) \<and>
   addRootNode lenHash ex_rooted ex_raw0 = Inr (True, ex_rooted) \<and>
   addRootNode_hash False lenHash ex_fresh 512 ex_raw0 = Inr (True, ex_rooted) \<and>
   addRootNode_hash False lenHash ex_rooted 512 ex_raw0 = Inr (True, ex_rooted)"
  using duplicate_push_succeeds [where s = ex_map2 and r = 0 and H = lenHash and rootNode = "[]"
      and ndebug = False and hash = 9 and node = "\<lparr>mDepth = 1, mNodeID = 0\<rparr>"
      and rawNode = "[]" and s' = ex_map2]
    duplicate_push_succeeds [where s = ex_map2 and H = lenHash
      and ndebug = False and node = "\<lparr>mDepth = 2, mNodeID = 0\<rparr>"
      and rawNode = ex_raw0 and s' = ex_map3]
    duplicate_push_succeeds [where s = ex_fresh and H = lenHash and rootNode = ex_raw0
      and ndebug = False and hash = 512 and s' = ex_rooted and r' = 1]
    ex_push_accepted ex_root_accepted ex_root_hash_accepted ex_rooted_root
  by (simp add: ex_sel node_defs checkCacheNode_def)

section \<open>Properties of getMissingNodes\<close>

text \<open>
  C1 (the code does not keep this). The claim: whenever getMissingNodes sets the fullBelow
  flag of a node, every descendant reachable through non-empty branches is resident. On the
  map \<open>ex_map2\<close> (a root, its resident inner child on branch 0, and two children of that child
  that are referenced but not resident) one call with budget 128 asks for the two missing
  nodes and sets the root's flag: the resident child was pushed for a later visit, which does
  not clear \<open>all_leaves\<close>. The root is then full below while nodes below it are missing, and
  the next call returns at once with nothing to ask for.
\<close>

theorem getMissingNodes_fullBelow_premature:
  "getMissingNodes ex_map2 [] [] 128 =
     Some (Inr ([getChildNodeID \<lparr>mDepth = 1, mNodeID = 0\<rparr> 0,
                 getChildNodeID \<lparr>mDepth = 1, mNodeID = 0\<rparr> 2], [512, 5],
                setFullBelow ex_map2 0)) \<and>
   root (setFullBelow ex_map2 0) = Some 0 \<and>
   isFullBelow (heap (setFullBelow ex_map2 0) 0) \<and>
   missingBelow (setFullBelow ex_map2 0) 0 \<and>
   getMissingNodes (setFullBelow ex_map2 0) [] [] 128 = Some (Inr ([], [], setFullBelow ex_map2 0))"
  using ex_gmn_128 ex_missingBelow ex_gmn_again
  by (simp add: isFullBelow_def setFullBelow_sel ex_map2_sel(3))

text \<open>
  C5, as the specification states it: the budget is decremented exactly once per emitted ID.
  It fails when the budget runs out inside a node. On \<open>ex_map2\<close> with budget 1 the loop visits
  the root and then its resident child, which has two missing children: the scan of that
  node takes the budget from 1 to -1 and emits one ID, since \<open>max--\<close> is evaluated for every
  missing child, emitted or not. The loop, and the call, end with one ID and two decrements.
\<close>

theorem budget_per_emitted_counterexample:
  "gMN_for (setFullBelow ex_map2 0) (ex_heap2 1) (1, [], [], [], True) =
     (- 1, [getChildNodeID \<lparr>mDepth = 1, mNodeID = 0\<rparr> 0], [512], [], False) \<and>
   gMN_while ex_map2 1 [] [] [0] =
     Some (- 1, [getChildNodeID \<lparr>mDepth = 1, mNodeID = 0\<rparr> 0], [512], setFullBelow ex_map2 0) \<and>
   getMissingNodes ex_map2 [] [] 1 =
     Some (Inr ([getChildNodeID \<lparr>mDepth = 1, mNodeID = 0\<rparr> 0], [512], setFullBelow ex_map2 0)) \<and>
   (1 :: int) - (- 1) \<noteq> int (length [getChildNodeID \<lparr>mDepth = 1, mNodeID = 0\<rparr> 0])"
  using ex_for1 ex_gmn_while_1 ex_gmn_1 by simp

text \<open>
  C5, amended. With budget 0 and a root, getMissingNodes returns the vectors and the map it
  was given: nothing is emitted, no state changes, no flag is set. With a budget \<open>mx \<ge> 0\<close> the
  call appends at most \<open>mx\<close> IDs, and as many hashes. The budget is decremented exactly once
  for every missing child that is found, whether or not its ID is emitted; the ID and the
  hash are emitted exactly when the budget before that decrement was positive. A branch whose
  child is not missing leaves the budget and the vectors alone. The scan of a node therefore
  goes over all 32 branches whatever the budget: it takes from the budget the number of
  missing children, emits the first \<open>nat mx\<close> of them, and the nodes pushed and the flag
  \<open>all_leaves\<close> do not depend on the budget. Over the whole loop the budget never grows and
  every emitted ID takes one unit of the remaining budget \<open>nat mx\<close>.
\<close>

theorem getMissingNodes_budget_law:
  "(root s = Some r \<longrightarrow> getMissingNodes s nodeIDs hashes 0 = Some (Inr (nodeIDs, hashes, s))) \<and>
   (getMissingNodes s nodeIDs hashes mx = Some (Inr (nodeIDs', hashes', s')) \<and> 0 \<le> mx \<longrightarrow>
      (\<exists>new newh. nodeIDs' = nodeIDs @ new \<and> hashes' = hashes @ newh \<and>
         length newh = length new \<and> int (length new) \<le> mx)) \<and>
   (childMissing s node i \<longrightarrow>
      gMN_branch s node i (mx, nodeIDs, hashes, stack, al) =
        (mx - 1,
         nodeIDs @ (if 0 < mx then [getChildNodeID (inID node) i] else []),
         hashes @ (if 0 < mx then [getChildHash node i] else []),
         stack, False)) \<and>
   (\<not> childMissing s node i \<longrightarrow>
      gMN_branch s node i (mx, nodeIDs, hashes, stack, al) =
        (mx, nodeIDs, hashes,
         (case childToPush s node i of None \<Rightarrow> stack | Some d \<Rightarrow> d # stack), al)) \<and>
   gMN_for s node (mx, nodeIDs, hashes, stack, al) =
     (mx - int (length (filter (childMissing s node) [0..<32])),
      nodeIDs @ take (nat mx) (map (getChildNodeID (inID node))
                                 (filter (childMissing s node) [0..<32])),
      hashes @ take (nat mx) (map (getChildHash node) (filter (childMissing s node) [0..<32])),
      rev (List.map_filter (childToPush s node) [0..<32]) @ stack,
      al \<and> filter (childMissing s node) [0..<32] = []) \<and>
   (gMN_while s mx nodeIDs hashes stack = Some (mxw, idsw, hsw, sw) \<longrightarrow>
      mxw \<le> mx \<and>
      length idsw = length nodeIDs + (nat mx - nat mxw) \<and>
      length hsw = length hashes + (nat mx - nat mxw))"
proof (intro conjI impI)
  assume "root s = Some r"
  then show "getMissingNodes s nodeIDs hashes 0 = Some (Inr (nodeIDs, hashes, s))"
    by (simp add: getMissingNodes_def gMN_while_stop)
next
  assume a: "getMissingNodes s nodeIDs hashes mx = Some (Inr (nodeIDs', hashes', s')) \<and> 0 \<le> mx"
  show "\<exists>new newh. nodeIDs' = nodeIDs @ new \<and> hashes' = hashes @ newh \<and>
         length newh = length new \<and> int (length new) \<le> mx"
  proof (cases "nodeIDs' = nodeIDs \<and> hashes' = hashes")
    case True
    with a show ?thesis by simp
  next
    case False
    with a obtain r mx' where "gMN_while s mx nodeIDs hashes [r] = Some (mx', nodeIDs', hashes', s')"
      by (auto simp: getMissingNodes_def split: option.splits if_splits)
    from gMN_while_budget_aux [OF this] obtain new newh where
      "nodeIDs' = nodeIDs @ new" "hashes' = hashes @ newh" "length newh = length new"
      "length new = nat mx - nat mx'" by auto
    with a show ?thesis by (intro exI [of _ new] exI [of _ newh]) auto
  qed
next
  assume "childMissing s node i"
  then show "gMN_branch s node i (mx, nodeIDs, hashes, stack, al) =
        (mx - 1,
         nodeIDs @ (if 0 < mx then [getChildNodeID (inID node) i] else []),
         hashes @ (if 0 < mx then [getChildHash node i] else []),
         stack, False)"
    by (simp add: gMN_branch_cases)
next
  assume "\<not> childMissing s node i"
  then show "gMN_branch s node i (mx, nodeIDs, hashes, stack, al) =
        (mx, nodeIDs, hashes,
         (case childToPush s node i of None \<Rightarrow> stack | Some d \<Rightarrow> d # stack), al)"
    by (cases "childToPush s node i") (simp_all add: gMN_branch_cases)
next
  show "gMN_for s node (mx, nodeIDs, hashes, stack, al) =
     (mx - int (length (filter (childMissing s node) [0..<32])),
      nodeIDs @ take (nat mx) (map (getChildNodeID (inID node))
                                 (filter (childMissing s node) [0..<32])),
      hashes @ take (nat mx) (map (getChildHash node) (filter (childMissing s node) [0..<32])),
      rev (List.map_filter (childToPush s node) [0..<32]) @ stack,
      al \<and> filter (childMissing s node) [0..<32] = [])"
    by (simp add: gMN_for_scan scanBranches_def)
next
  assume "gMN_while s mx nodeIDs hashes stack = Some (mxw, idsw, hsw, sw)"
  from gMN_while_budget_aux [OF this]
  show "mxw \<le> mx" and "length idsw = length nodeIDs + (nat mx - nat mxw)"
    and "length hsw = length hashes + (nat mx - nat mxw)" by auto
qed

theorem getMissingNodes_budget_law_witness:
  "getMissingNodes ex_map2 [] [] 0 = Some (Inr ([], [], ex_map2)) \<and>
   getMissingNodes ex_map2 [] [] 1 =
     Some (Inr ([getChildNodeID \<lparr>mDepth = 1, mNodeID = 0\<rparr> 0], [512], setFullBelow ex_map2 0)) \<and>
   gMN_branch (setFullBelow ex_map2 0) (ex_heap2 1) 0 (1, [], [], [], True) =
     (0, [getChildNodeID \<lparr>mDepth = 1, mNodeID = 0\<rparr> 0], [512], [], False) \<and>
   gMN_branch (setFullBelow ex_map2 0) (ex_heap2 1) 1
        (0, [getChildNodeID \<lparr>mDepth = 1, mNodeID = 0\<rparr> 0], [512], [], False) =
     (0, [getChildNodeID \<lparr>mDepth = 1, mNodeID = 0\<rparr> 0], [512], [], False) \<and>
   gMN_branch (setFullBelow ex_map2 0) (ex_heap2 1) 2
        (0, [getChildNodeID \<lparr>mDepth = 1, mNodeID = 0\<rparr> 0], [512], [], False) =
     (- 1, [getChildNodeID \<lparr>mDepth = 1, mNodeID = 0\<rparr> 0], [512], [], False) \<and>
   gMN_while ex_map2 1 [] [] [0] =
     Some (- 1, [getChildNodeID \<lparr>mDepth = 1, mNodeID = 0\<rparr> 0], [512], setFullBelow ex_map2 0) \<and>
   length [getChildNodeID \<lparr>mDepth = 1, mNodeID = 0\<rparr> 0] = 0 + (nat 1 - nat (- 1))"
proof -
  let ?c = "getChildNodeID \<lparr>mDepth = 1, mNodeID = 0\<rparr> 0"
  let ?s = "setFullBelow ex_map2 0"
  note a = getMissingNodes_budget_law [where s = ex_map2 and r = 0 and mx = 1 and nodeIDs = "[]"
      and hashes = "[]" and stack = "[0]" and nodeIDs' = "[?c]" and hashes' = "[512]"
      and s' = ?s and mxw = "- 1" and idsw = "[?c]" and hsw = "[512]" and sw = ?s]
  note b = getMissingNodes_budget_law [where s = ?s and node = "ex_heap2 1" and i = 0 and mx = 1
      and nodeIDs = "[]" and hashes = "[]" and stack = "[]" and al = True]
  note c = getMissingNodes_budget_law [where s = ?s and node = "ex_heap2 1" and i = 1 and mx = 0
      and nodeIDs = "[?c]" and hashes = "[512]" and stack = "[]" and al = False]
  note d = getMissingNodes_budget_law [where s = ?s and node = "ex_heap2 1" and i = 2 and mx = 0
      and nodeIDs = "[?c]" and hashes = "[512]" and stack = "[]" and al = False]
  have h: "getChildHash (ex_heap2 (Suc 0)) 0 = 512" "getChildHash (ex_heap2 (Suc 0)) 2 = 5"
    "inID (ex_heap2 (Suc 0)) = \<lparr>mDepth = 1, mNodeID = 0\<rparr>"
    by (simp_all add: getChildHash_def ex_heap2_def ex_node_def)
  have r1: "getMissingNodes ex_map2 [] [] 0 = Some (Inr ([], [], ex_map2))"
    using a by (simp add: ex_map2_sel(3))
  have r3: "gMN_branch ?s (ex_heap2 1) 0 (1, [], [], [], True) = (0, [?c], [512], [], False)"
    using b ex_child_facts(1) by (simp add: h)
  have r4: "gMN_branch ?s (ex_heap2 1) 1 (0, [?c], [512], [], False) =
        (0, [?c], [512], [], False)"
    using c ex_child_facts(2) ex_child_facts(4) by simp
  have r5: "gMN_branch ?s (ex_heap2 1) 2 (0, [?c], [512], [], False) = (- 1, [?c], [512], [], False)"
    using d ex_child_facts(3) by (simp add: h)
  have r6: "length [?c] = 0 + (nat 1 - nat (- 1))"
    using a ex_gmn_while_1 by simp
  from r1 ex_gmn_1 r3 r4 r5 ex_gmn_while_1 r6 show ?thesis by blast
qed

text \<open>
  C6, as the specification states it: the scan of a node considers exactly the branches
  0..15. It fails on a root whose only non-empty branch is branch 16: the loop of the source
  runs to 31 and asks for that child.
\<close>

theorem scan_sixteen_counterexample:
  "gMN_for ex_wide (heap ex_wide 0) (128, [], [], [], True) \<noteq>
     scanBranches 16 ex_wide (heap ex_wide 0) (128, [], [], [], True)"
  by (simp add: gMN_for_scan ex_wide_scan16 ex_wide_scan32)

text \<open>
  C6, amended. getMissingNodes runs its loop on a stack that holds the root alone. One round of
  the loop pops the top node, scans it, and continues with the nodes pushed during the scan on
  top of the rest of the stack, the last pushed first. The scan of a node considers exactly
  the branches 0..31, in increasing index order.
\<close>

theorem getMissingNodes_order:
  "(root s = Some r \<and> \<not> isFullBelow (heap s r) \<longrightarrow>
      getMissingNodes s nodeIDs hashes mx =
        map_option (\<lambda>(mx', ids', hs', s'). Inr (ids', hs', s')) (gMN_while s mx nodeIDs hashes [r])) \<and>
   (0 < mx \<longrightarrow>
      gMN_while s mx nodeIDs hashes (p # stack) =
        gMN_while (if filter (childMissing s (heap s p)) [0..<32] = [] then setFullBelow s p else s)
          (mx - int (length (filter (childMissing s (heap s p)) [0..<32])))
          (nodeIDs @ take (nat mx) (map (getChildNodeID (inID (heap s p)))
                                      (filter (childMissing s (heap s p)) [0..<32])))
          (hashes @ take (nat mx) (map (getChildHash (heap s p))
                                     (filter (childMissing s (heap s p)) [0..<32])))
          (rev (List.map_filter (childToPush s (heap s p)) [0..<32]) @ stack)) \<and>
   gMN_for s node st = scanBranches 32 s node st"
  by (auto simp: getMissingNodes_def gMN_while_step gMN_for_scan scanBranches_def
      split: option.splits)

theorem getMissingNodes_order_witness:
  "root ex_map2 = Some 0 \<and> \<not> isFullBelow (heap ex_map2 0) \<and>
   getMissingNodes ex_map2 [] [] 128 =
     map_option (\<lambda>(mx', ids', hs', s'). Inr (ids', hs', s')) (gMN_while ex_map2 128 [] [] [0]) \<and>
   gMN_while ex_map2 128 [] [] [0] = gMN_while (setFullBelow ex_map2 0) 128 [] [] [1]"
  using getMissingNodes_order [where s = ex_map2 and r = 0 and mx = 128 and nodeIDs = "[]"
      and hashes = "[]" and p = 0 and stack = "[]"]
    ex_root_not_full ex_root_miss ex_root_push
  by (simp add: ex_map2_sel)

text \<open>
  C10. If getMissingNodes returns, the by-ID indexes, the dirty sets and the root pointer are
  the ones it was given; no node's hash, child hashes, ID or sequence changes; and a node
  object that changed is reachable by pointer (the root or a value of the inner-by-ID index),
  had its fullBelow flag false, and differs only in that the flag is now true.
\<close>

theorem getMissingNodes_frame:
  assumes "getMissingNodes s nodeIDs hashes mx = Some (Inr (nodeIDs', hashes', s'))"
  shows "mInnerNodeByID s' = mInnerNodeByID s \<and> mLeafByID s' = mLeafByID s \<and>
         mDirtyInnerNodes s' = mDirtyInnerNodes s \<and> mDirtyLeafNodes s' = mDirtyLeafNodes s \<and>
         root s' = root s \<and>
         (\<forall>p. mHash (heap s' p) = mHash (heap s p) \<and> mHashes (heap s' p) = mHashes (heap s p) \<and>
              inID (heap s' p) = inID (heap s p) \<and> mSeq (heap s' p) = mSeq (heap s p)) \<and>
         (\<forall>p. heap s' p \<noteq> heap s p \<longrightarrow>
              (root s = Some p \<or> p \<in> ran (mInnerNodeByID s)) \<and>
              \<not> mFullBelow (heap s p) \<and> heap s' p = (heap s p)\<lparr>mFullBelow := True\<rparr>)"
proof -
  have f: "flagsOnly s s'"
  proof (cases "root s")
    case None
    with assms show ?thesis by (simp add: getMissingNodes_def)
  next
    case (Some r)
    show ?thesis
    proof (cases "isFullBelow (heap s r)")
      case True
      with assms Some show ?thesis by (simp add: getMissingNodes_def flagsOnly_refl)
    next
      case False
      with assms Some obtain mx' where "gMN_while s mx nodeIDs hashes [r] = Some (mx', nodeIDs', hashes', s')"
        by (auto simp: getMissingNodes_def split: option.splits)
      moreover have "set [r] \<subseteq> visitable s" using Some by (simp add: visitable_def)
      ultimately show ?thesis by (rule gMN_while_flagsOnly)
    qed
  qed
  have h: "heap s' p = heap s p \<or>
     (p \<in> visitable s \<and> \<not> mFullBelow (heap s p) \<and> heap s' p = (heap s p)\<lparr>mFullBelow := True\<rparr>)" for p
    using f by (rule flagsOnly_heap)
  have fields: "mHash (heap s' p) = mHash (heap s p) \<and> mHashes (heap s' p) = mHashes (heap s p) \<and>
              inID (heap s' p) = inID (heap s p) \<and> mSeq (heap s' p) = mSeq (heap s p)" for p
    using h [of p] by auto
  have changed: "heap s' p \<noteq> heap s p \<longrightarrow>
              (root s = Some p \<or> p \<in> ran (mInnerNodeByID s)) \<and>
              \<not> mFullBelow (heap s p) \<and> heap s' p = (heap s p)\<lparr>mFullBelow := True\<rparr>" for p
    using h [of p] by (auto simp: visitable_def)
  from f have "mInnerNodeByID s' = mInnerNodeByID s" "mLeafByID s' = mLeafByID s"
         "mDirtyInnerNodes s' = mDirtyInnerNodes s" "mDirtyLeafNodes s' = mDirtyLeafNodes s"
         "root s' = root s"
    unfolding flagsOnly_def by simp_all
  with fields changed show ?thesis by blast
qed

theorem getMissingNodes_frame_witness:
  "getMissingNodes ex_map2 [] [] 128 =
     Some (Inr ([getChildNodeID \<lparr>mDepth = 1, mNodeID = 0\<rparr> 0,
                 getChildNodeID \<lparr>mDepth = 1, mNodeID = 0\<rparr> 2], [512, 5],
                setFullBelow ex_map2 0)) \<and>
   mInnerNodeByID (setFullBelow ex_map2 0) = mInnerNodeByID ex_map2 \<and>
   heap (setFullBelow ex_map2 0) 0 \<noteq> heap ex_map2 0 \<and>
   root ex_map2 = Some 0 \<and>
   heap (setFullBelow ex_map2 0) 0 = (heap ex_map2 0)\<lparr>mFullBelow := True\<rparr>"
  using getMissingNodes_frame [OF ex_gmn_128] ex_gmn_128
  by (simp add: setFullBelow_sel ex_sel)

section \<open>Properties of getNodeFat\<close>

text \<open>
  C2 (the code does not keep this). The claim: for a resident inner node the answer holds the
  wanted node itself and its resident children, so that on an empty map the answer for the
  root is exactly one node. On the empty map \<open>ex_fresh\<close> getNodeFat for the root returns true
  and appends nothing: the inner node itself is never appended, only its children are.
\<close>

theorem getNodeFat_empty_trie:
  "getNodeFat ex_fresh SHAMapNode_default [] [] = (True, [], [])"
  by (simp add: getNodeFat_def gNF_fold_empty isLeaf_def getInnerNode_def ex_fresh_sel
      SHAMapNode_default_def isEmptyBranch_def getChildHash_def ex_node_def)


end
